theory Spec2Isabelle
  imports Complex_Main
begin

section \<open>Errors and array primitives\<close>

text \<open>
  The exceptions of the Python source are values of \<open>error\<close>; a function that can raise
  returns \<open>error + 'a\<close> with \<open>Inl\<close> for the exception. A RuntimeError carries its message.
\<close>

datatype error =
    IndexError | ValueError | RuntimeError string | AssertionError
  | AttributeError | TypeError | ZeroDivisionError

definition bindE :: "error + 'a \<Rightarrow> ('a \<Rightarrow> error + 'b) \<Rightarrow> error + 'b" where
  "bindE m f = (case m of Inl e \<Rightarrow> Inl e | Inr x \<Rightarrow> f x)"

text \<open>
  An allocation matrix is a list of rows. The source stores the floats \<open>0.0\<close> and
  \<open>1.0\<close> only and tests entries with \<open>== 1\<close>; the entries are modelled as naturals.
\<close>

type_synonym matrix = "nat list list"

definition zeros :: "nat \<Rightarrow> nat \<Rightarrow> matrix" where
  "zeros nrows ncols = replicate nrows (replicate ncols 0)"

text \<open>\<^verbatim>\<open>mat[r, c] = v\<close>\<close>

definition set_entry :: "matrix \<Rightarrow> nat \<Rightarrow> nat \<Rightarrow> nat \<Rightarrow> matrix" where
  "set_entry mat r c v = mat[r := (mat ! r)[c := v]]"

text \<open>\<^verbatim>\<open>mat[:, c]\<close>\<close>

definition get_col :: "matrix \<Rightarrow> nat \<Rightarrow> nat list" where
  "get_col mat c = map (\<lambda>row. row ! c) mat"

text \<open>\<^verbatim>\<open>mat[:, c] = v\<close>\<close>

definition set_col :: "matrix \<Rightarrow> nat \<Rightarrow> nat list \<Rightarrow> matrix" where
  "set_col mat c v = map (\<lambda>(row, x). row[c := x]) (zip mat v)"

text \<open>\<^verbatim>\<open>mat[:II, c] = 1.0\<close>\<close>

definition set_col_upto :: "matrix \<Rightarrow> nat \<Rightarrow> nat \<Rightarrow> matrix" where
  "set_col_upto mat II c = map (\<lambda>row. row[c := 1]) (take II mat) @ drop II mat"

text \<open>\<^verbatim>\<open>np.where(v == 1)[0]\<close>\<close>

definition np_where1 :: "nat list \<Rightarrow> nat list" where
  "np_where1 v = filter (\<lambda>i. v ! i = 1) [0..<length v]"

text \<open>
  A numpy column index: an index in \<open>[-ncols, 0)\<close> counts from the end, anything outside
  \<open>[-ncols, ncols)\<close> raises IndexError.
\<close>

definition col_index :: "nat \<Rightarrow> int \<Rightarrow> error + nat" where
  "col_index ncols c =
     (if 0 \<le> c \<and> c < int ncols then Inr (nat c)
      else if - int ncols \<le> c \<and> c < 0 then Inr (nat (c + int ncols))
      else Inl IndexError)"

section \<open>Allocation matrices\<close>

text \<open>
  The three loops of \<^verbatim>\<open>_get_allocation_matrix_gmf\<close>. The first two are shared, line for
  line, by \<^verbatim>\<open>_get_allocation_matrix_acvis\<close> and \<^verbatim>\<open>_get_allocation_matrix_acvrd\<close>.
\<close>

fun mark_plain :: "nat list \<Rightarrow> matrix \<Rightarrow> matrix" where
  "mark_plain [] mat = mat"
| "mark_plain (ii # rest) mat = mark_plain rest (set_entry mat ii (2 * ii + 1) 1)"

fun copy_parent :: "nat \<Rightarrow> int list \<Rightarrow> nat list \<Rightarrow> matrix \<Rightarrow> error + matrix" where
  "copy_parent nmodels recursion_index [] mat = Inr mat"
| "copy_parent nmodels recursion_index (ii # rest) mat =
     (case col_index (2 * nmodels) (recursion_index ! (ii - 1) * 2 + 1) of
        Inl e \<Rightarrow> Inl e
      | Inr c \<Rightarrow> copy_parent nmodels recursion_index rest (set_col mat (2 * ii) (get_col mat c)))"

fun propagate :: "nat list \<Rightarrow> matrix \<Rightarrow> error + matrix" where
  "propagate [] mat = Inr mat"
| "propagate (ii # rest) mat =
     (let w = np_where1 (get_col mat ii) in
      if w = [] then Inl IndexError
      else propagate rest (set_col_upto mat (last w) ii))"

definition get_allocation_matrix_gmf :: "int list \<Rightarrow> error + matrix" where
  "get_allocation_matrix_gmf recursion_index =
     (let nmodels = length recursion_index + 1;
          mat = mark_plain [0..<nmodels] (zeros nmodels (2 * nmodels))
      in case copy_parent nmodels recursion_index [1..<nmodels] mat of
           Inl e \<Rightarrow> Inl e
         | Inr mat \<Rightarrow> propagate [2..<2 * nmodels] mat)"

fun saturate :: "nat list \<Rightarrow> matrix \<Rightarrow> matrix" where
  "saturate [] mat = mat"
| "saturate (ii # rest) mat =
     saturate rest
       (set_col mat (2 * ii + 1) (map2 max (get_col mat (2 * ii)) (get_col mat (2 * ii + 1))))"

definition get_allocation_matrix_acvis :: "int list \<Rightarrow> error + matrix" where
  "get_allocation_matrix_acvis recursion_index =
     (let nmodels = length recursion_index + 1;
          mat = mark_plain [0..<nmodels] (zeros nmodels (2 * nmodels))
      in case copy_parent nmodels recursion_index [1..<nmodels] mat of
           Inl e \<Rightarrow> Inl e
         | Inr mat \<Rightarrow> Inr (saturate [1..<nmodels] mat))"

definition get_allocation_matrix_acvrd :: "int list \<Rightarrow> error + matrix" where
  "get_allocation_matrix_acvrd recursion_index =
     (let nmodels = length recursion_index + 1;
          allocation_mat = mark_plain [0..<nmodels] (zeros nmodels (2 * nmodels))
      in copy_parent nmodels recursion_index [1..<nmodels] allocation_mat)"

text \<open>
  A recursion index is well formed when every parent pointer names one of the \<open>M\<close>
  models, \<open>M - 1\<close> being the length of the index.
\<close>

definition valid_recursion_index :: "int list \<Rightarrow> bool" where
  "valid_recursion_index recursion_index =
     list_all (\<lambda>p. 0 \<le> p \<and> p \<le> int (length recursion_index)) recursion_index"

subsection \<open>The construction as the specification words it\<close>

text \<open>
  The specification describes the GMF matrix entry by entry, in three stages: the plain
  column \<open>2m+1\<close> is the unit indicator of partition \<open>m\<close>; the starred column \<open>2m\<close> of
  \<open>m \<ge> 1\<close> equals the plain column of the parent of \<open>m\<close>; in every column \<open>c \<ge> 2\<close>
  the rows below the lowest-indexed active row become active.
\<close>

definition spec_unit_plain :: "nat \<Rightarrow> matrix" where
  "spec_unit_plain M =
     map (\<lambda>r. map (\<lambda>c. if c = 2 * r + 1 then 1 else 0) [0..<2 * M]) [0..<M]"

definition spec_mirror_parent :: "nat \<Rightarrow> int list \<Rightarrow> matrix \<Rightarrow> matrix" where
  "spec_mirror_parent M recursion_index A =
     map (\<lambda>r. map (\<lambda>c. if even c \<and> 2 \<le> c
                        then A ! r ! (2 * nat (recursion_index ! (c div 2 - 1)) + 1)
                        else A ! r ! c) [0..<2 * M]) [0..<M]"

definition spec_lowest_active :: "nat \<Rightarrow> matrix \<Rightarrow> nat \<Rightarrow> nat option" where
  "spec_lowest_active M A c =
     (case filter (\<lambda>r. A ! r ! c = 1) [0..<M] of [] \<Rightarrow> None | r # _ \<Rightarrow> Some r)"

definition spec_subsume_lower :: "nat \<Rightarrow> matrix \<Rightarrow> matrix" where
  "spec_subsume_lower M A =
     map (\<lambda>r. map (\<lambda>c. if 2 \<le> c
                        then (case spec_lowest_active M A c of
                                None \<Rightarrow> A ! r ! c
                              | Some r0 \<Rightarrow> if r < r0 then 1 else A ! r ! c)
                        else A ! r ! c) [0..<2 * M]) [0..<M]"

definition spec_gmf :: "int list \<Rightarrow> matrix" where
  "spec_gmf recursion_index =
     (let M = length recursion_index + 1
      in spec_subsume_lower M (spec_mirror_parent M recursion_index (spec_unit_plain M)))"

subsection \<open>Closed forms of the entries\<close>

text \<open>
  A matrix given by its entries, and the entries of the three policies' matrices for a well
  formed recursion index: the proofs below show that the loops compute exactly these.
\<close>

definition mk_mat :: "nat \<Rightarrow> nat \<Rightarrow> (nat \<Rightarrow> nat \<Rightarrow> nat) \<Rightarrow> matrix" where
  "mk_mat R C f = map (\<lambda>r. map (f r) [0..<C]) [0..<R]"

definition unit_col :: "nat \<Rightarrow> nat \<Rightarrow> nat" where
  "unit_col q r = (if r = q then 1 else 0)"

definition parent :: "int list \<Rightarrow> nat \<Rightarrow> nat" where
  "parent recursion_index m = nat (recursion_index ! (m - 1))"

definition grd_entry :: "int list \<Rightarrow> nat \<Rightarrow> nat \<Rightarrow> nat" where
  "grd_entry rec r c =
     (if odd c then unit_col (c div 2) r
      else if 2 \<le> c then unit_col (parent rec (c div 2)) r else 0)"

definition active_top :: "int list \<Rightarrow> nat \<Rightarrow> nat" where
  "active_top rec c = (if odd c then c div 2 else parent rec (c div 2))"

definition gmf_entry :: "int list \<Rightarrow> nat \<Rightarrow> nat \<Rightarrow> nat" where
  "gmf_entry rec r c =
     (if 2 \<le> c then (if r \<le> active_top rec c then 1 else 0) else grd_entry rec r c)"

definition gis_entry :: "int list \<Rightarrow> nat \<Rightarrow> nat \<Rightarrow> nat" where
  "gis_entry rec r c =
     (if odd c \<and> 3 \<le> c then max (grd_entry rec r (c - 1)) (grd_entry rec r c)
      else grd_entry rec r c)"

subsection \<open>The GIS construction as the specification words it\<close>

text \<open>
  Saturation: every plain column \<open>2m+1\<close> becomes the elementwise maximum of itself and its
  starred counterpart \<open>2m\<close>.
\<close>

definition spec_saturate_plain :: "nat \<Rightarrow> matrix \<Rightarrow> matrix" where
  "spec_saturate_plain M A =
     map (\<lambda>r. map (\<lambda>c. if odd c then max (A ! r ! c) (A ! r ! (c - 1)) else A ! r ! c)
                  [0..<2 * M]) [0..<M]"


section \<open>The estimator object\<close>

text \<open>
  The attributes of an \<^verbatim>\<open>ACVEstimator\<close> that the functions below read or write. The
  subclass (\<^verbatim>\<open>GMFEstimator\<close>, \<^verbatim>\<open>GISEstimator\<close>, \<^verbatim>\<open>GRDEstimator\<close>) is the field
  \<open>policy\<close>; it decides \<^verbatim>\<open>_create_allocation_matrix\<close>. An attribute that is \<^verbatim>\<open>None\<close>, or
  not yet set, is \<open>None\<close>. The statistic, the covariance entries and the optimisation
  criterion are not modelled; of the covariance only the number of rows is read here.
  A criterion is a double: a finite value, an infinity or NaN.
\<close>

datatype policy = GMF | GIS | GRD

datatype criterion = Finite real | PosInf | NegInf | NaN

fun crit_less :: "criterion \<Rightarrow> criterion \<Rightarrow> bool" where
  "crit_less NaN c = False"
| "crit_less c NaN = False"
| "crit_less (Finite a) (Finite b) = (a < b)"
| "crit_less (Finite a) PosInf = True"
| "crit_less NegInf (Finite b) = True"
| "crit_less NegInf PosInf = True"
| "crit_less c d = False"

record estimator =
  policy :: policy
  nmodels :: nat
  nqoi :: nat
  costs :: "real list"
  allocation_mat :: "matrix option"
  recursion_index :: "int list option"
  tree_depth :: "nat option"
  allow_failures :: bool
  rounded_partition_ratios :: "real list option"
  rounded_npartition_samples :: "nat list option"
  rounded_nsamples_per_model :: "nat list option"
  rounded_target_cost :: "real option"
  optimized_criteria :: "criterion option"

definition create_allocation_matrix :: "policy \<Rightarrow> int list \<Rightarrow> error + matrix" where
  "create_allocation_matrix pol index =
     (case pol of
        GMF \<Rightarrow> get_allocation_matrix_gmf index
      | GIS \<Rightarrow> get_allocation_matrix_acvis index
      | GRD \<Rightarrow> get_allocation_matrix_acvrd index)"

definition set_recursion_index :: "estimator \<Rightarrow> int list option \<Rightarrow> error + estimator" where
  "set_recursion_index est index_arg =
     (let index = (case index_arg of
                     None \<Rightarrow> replicate (nmodels est - 1) 0
                   | Some i \<Rightarrow> i)
      in if length index \<noteq> nmodels est - 1 then Inl ValueError
         else bindE (create_allocation_matrix (policy est) index)
                (\<lambda>mat. Inr (est\<lparr>allocation_mat := Some mat, recursion_index := Some index\<rparr>)))"

text \<open>
  \<^verbatim>\<open>ACVEstimator.__init__\<close> after \<^verbatim>\<open>MCEstimator.__init__\<close> and \<^verbatim>\<open>_check_cov\<close>:
  \<open>cov_nrows\<close> is \<^verbatim>\<open>cov.shape[0]\<close>.
\<close>

definition acv_init ::
  "policy \<Rightarrow> real list \<Rightarrow> nat \<Rightarrow> int list option \<Rightarrow> nat option \<Rightarrow> bool \<Rightarrow> error + estimator" where
  "acv_init pol costs_arg cov_nrows recursion_index_arg tree_depth_arg allow_failures_arg =
     (if length costs_arg = 0 then Inl ZeroDivisionError
      else if cov_nrows mod length costs_arg \<noteq> 0 then Inl ValueError
      else
        let est0 = \<lparr>policy = pol, nmodels = length costs_arg,
                    nqoi = cov_nrows div length costs_arg, costs = costs_arg,
                    allocation_mat = None, recursion_index = None, tree_depth = None,
                    allow_failures = False, rounded_partition_ratios = None,
                    rounded_npartition_samples = None, rounded_nsamples_per_model = None,
                    rounded_target_cost = None, optimized_criteria = None\<rparr>
        in if tree_depth_arg \<noteq> None \<and> recursion_index_arg \<noteq> None then Inl ValueError
           else bindE (if tree_depth_arg = None
                       then set_recursion_index est0 recursion_index_arg else Inr est0)
                  (\<lambda>est. Inr (est\<lparr>tree_depth := tree_depth_arg,
                                   allow_failures := allow_failures_arg,
                                   rounded_partition_ratios := None\<rparr>)))"

definition get_mat :: "estimator \<Rightarrow> error + matrix" where
  "get_mat est = (case allocation_mat est of None \<Rightarrow> Inl AttributeError | Some mat \<Rightarrow> Inr mat)"

section \<open>Partition counts\<close>

text \<open>
  \<open>active_partitions mat m\<close> is
  \<^verbatim>\<open>np.where((mat[:, 2*m] == 1) | (mat[:, 2*m+1] == 1))[0]\<close>, the partitions that hold
  samples of model \<open>m\<close>; \<^verbatim>\<open>_compute_single_model_nsamples\<close> sums their counts.
\<close>

definition active_partitions :: "matrix \<Rightarrow> nat \<Rightarrow> nat list" where
  "active_partitions mat m =
     filter (\<lambda>j. mat ! j ! (2 * m) = 1 \<or> mat ! j ! (2 * m + 1) = 1) [0..<length mat]"

definition compute_single_model_nsamples ::
  "matrix \<Rightarrow> ('a::monoid_add) list \<Rightarrow> nat \<Rightarrow> 'a" where
  "compute_single_model_nsamples mat npartition_samples model_id =
     sum_list (map (\<lambda>j. npartition_samples ! j) (active_partitions mat model_id))"

definition compute_nsamples_per_model ::
  "nat \<Rightarrow> matrix \<Rightarrow> ('a::monoid_add) list \<Rightarrow> 'a list" where
  "compute_nsamples_per_model n mat npartition_samples =
     map (compute_single_model_nsamples mat npartition_samples) [0..<n]"

text \<open>Partition \<open>j\<close> is active for model \<open>m\<close>: it is in the starred or in the plain column.\<close>

definition spec_active :: "matrix \<Rightarrow> nat \<Rightarrow> nat \<Rightarrow> bool" where
  "spec_active mat m j = (mat ! j ! (2 * m) = 1 \<or> mat ! j ! (2 * m + 1) = 1)"

text \<open>
  An estimator as its constructor leaves it for one of the three policies and a well
  formed recursion index, with one cost per model.
\<close>

definition built_estimator :: "estimator \<Rightarrow> int list \<Rightarrow> bool" where
  "built_estimator est index =
     (valid_recursion_index index \<and> nmodels est = length index + 1
      \<and> length (costs est) = nmodels est
      \<and> create_allocation_matrix (policy est) index = Inr (the (allocation_mat est))
      \<and> allocation_mat est \<noteq> None)"

definition policy_entry :: "policy \<Rightarrow> int list \<Rightarrow> nat \<Rightarrow> nat \<Rightarrow> nat" where
  "policy_entry pol rec =
     (case pol of GMF \<Rightarrow> gmf_entry rec | GIS \<Rightarrow> gis_entry rec | GRD \<Rightarrow> grd_entry rec)"

text \<open>
  A concrete estimator for the examples: the GMF estimator of three models with recursion
  index \<open>[0, 1]\<close> and costs \<open>1, 0.1, 0.01\<close>, after an allocation with partition counts
  \<open>2, 1, 3\<close>.
\<close>

definition gmf3 :: estimator where
  "gmf3 = \<lparr>policy = GMF, nmodels = 3, nqoi = 1, costs = [1, 1 / 10, 1 / 100],
            allocation_mat = Some [[0, 1, 1, 1, 1, 1], [0, 0, 0, 1, 1, 1], [0, 0, 0, 0, 0, 1]],
            recursion_index = Some [0, 1], tree_depth = None, allow_failures = False,
            rounded_partition_ratios = Some [1 / 2, 3 / 2],
            rounded_npartition_samples = Some [2, 1, 3],
            rounded_nsamples_per_model = Some [2, 3, 6],
            rounded_target_cost = Some (59 / 25), optimized_criteria = None\<rparr>"

section \<open>The sweep over recursion indices\<close>

text \<open>
  \<^verbatim>\<open>_allocate_samples_for_all_recursion_indices\<close>. The optimisation of one recursion index
  (\<^verbatim>\<open>_allocate_samples_for_single_recursion\<close>, which runs the nonlinear solver) is a
  parameter: it returns the updated estimator, or the exception together with the
  estimator as the exception leaves it. The enumeration of the recursion indices and the
  final \<^verbatim>\<open>_set_optimized_params\<close> are parameters as well. Only a RuntimeError is caught.
\<close>

record best_result =
  best_ratios :: "real list option"
  best_target_cost :: "real option"
  best_criteria :: criterion
  best_index :: "int list"

fun is_runtime_error :: "error \<Rightarrow> bool" where
  "is_runtime_error (RuntimeError msg) = True"
| "is_runtime_error e = False"

type_synonym single_recursion = "real \<Rightarrow> estimator \<Rightarrow> (error \<times> estimator) + estimator"

definition try_single_recursion ::
  "single_recursion \<Rightarrow> real \<Rightarrow> estimator \<Rightarrow> error + estimator" where
  "try_single_recursion single target_cost est =
     (case single target_cost est of
        Inr est' \<Rightarrow> Inr est'
      | Inl (e, est') \<Rightarrow>
          if is_runtime_error e
          then (if \<not> allow_failures est' then Inl e
                else Inr (est'\<lparr>optimized_criteria := Some PosInf\<rparr>))
          else Inl e)"

fun sweep ::
  "single_recursion \<Rightarrow> real \<Rightarrow> int list list \<Rightarrow> estimator \<Rightarrow> criterion \<Rightarrow> best_result option
   \<Rightarrow> error + (estimator \<times> criterion \<times> best_result option)" where
  "sweep single target_cost [] est best_crit best = Inr (est, best_crit, best)"
| "sweep single target_cost (index # rest) est best_crit best =
     bindE (set_recursion_index est (Some index)) (\<lambda>est1.
     bindE (try_single_recursion single target_cost est1) (\<lambda>est2.
       case optimized_criteria est2 of
         None \<Rightarrow> Inl TypeError
       | Some c \<Rightarrow>
           if crit_less c best_crit
           then sweep single target_cost rest est2 c
                  (Some \<lparr>best_ratios = rounded_partition_ratios est2,
                         best_target_cost = rounded_target_cost est2,
                         best_criteria = c, best_index = index\<rparr>)
           else sweep single target_cost rest est2 best_crit best))"

definition allocate_samples_for_all_recursion_indices ::
  "single_recursion \<Rightarrow> (real list option \<Rightarrow> real \<Rightarrow> estimator \<Rightarrow> error + estimator)
   \<Rightarrow> int list list \<Rightarrow> real \<Rightarrow> estimator \<Rightarrow> error + estimator" where
  "allocate_samples_for_all_recursion_indices single set_optimized_params indices target_cost est =
     bindE (sweep single target_cost indices est PosInf None) (\<lambda>(est', best_crit, best).
       case best of
         None \<Rightarrow> Inl (RuntimeError ''No solutions were found'')
       | Some b \<Rightarrow>
           bindE (set_recursion_index est' (Some (best_index b)))
             (set_optimized_params (best_ratios b) target_cost))"

text \<open>A solver that fails on every recursion index, for the examples.\<close>

definition failing_single :: single_recursion where
  "failing_single target_cost est = Inl (RuntimeError ''optimizer failed'', est)"

section \<open>Model selection: the keyword arguments of a subset\<close>




section \<open>Partition indices, acv subsets and their values\<close>

text \<open>
  \<^verbatim>\<open>_get_partition_indices\<close>: the indices \<open>0, ..., sum - 1\<close> split at the cumulative sums of
  all counts but the last. The rounded partition counts are integers.
\<close>

fun cumsum_from :: "nat \<Rightarrow> nat list \<Rightarrow> nat list" where
  "cumsum_from acc [] = []"
| "cumsum_from acc (x # xs) = (acc + x) # cumsum_from (acc + x) xs"

definition slice :: "'a list \<Rightarrow> nat \<Rightarrow> nat \<Rightarrow> 'a list" where
  "slice xs lb ub = take (ub - lb) (drop lb xs)"

definition np_split :: "'a list \<Rightarrow> nat list \<Rightarrow> 'a list list" where
  "np_split ary points =
     map (\<lambda>(a, b). slice ary a b) (zip (0 # points) (points @ [length ary]))"

definition get_partition_indices :: "nat list \<Rightarrow> nat list list" where
  "get_partition_indices npartition_samples =
     np_split [0..<sum_list npartition_samples] (cumsum_from 0 (butlast npartition_samples))"

text \<open>
  \<^verbatim>\<open>xs[idx]\<close> with an integer index array raises IndexError on an index out of range;
  \<^verbatim>\<open>np.hstack\<close> and \<^verbatim>\<open>np.vstack\<close> raise ValueError on an empty list of arrays; \<^verbatim>\<open>xs[i]\<close>
  raises IndexError out of range.
\<close>

definition take_rows :: "'a list \<Rightarrow> nat list \<Rightarrow> error + 'a list" where
  "take_rows xs idx =
     (if list_all (\<lambda>i. i < length xs) idx then Inr (map (\<lambda>i. xs ! i) idx) else Inl IndexError)"

definition np_stack :: "'a list list \<Rightarrow> error + 'a list" where
  "np_stack xss = (if xss = [] then Inl ValueError else Inr (concat xss))"

definition nth_err :: "'a list \<Rightarrow> nat \<Rightarrow> error + 'a" where
  "nth_err xs i = (if i < length xs then Inr (xs ! i) else Inl IndexError)"

text \<open>
  The loop over the active partitions of one model in
  \<^verbatim>\<open>_get_partition_indices_per_acv_subset\<close>. The random generator is explicit: \<open>choice g n\<close>
  is \<^verbatim>\<open>np.random.choice(np.arange(n), size=n, replace=True)\<close> in the generator state \<open>g\<close>,
  with the next state. \<open>rpi\<close> is \<^verbatim>\<open>random_partition_indices\<close>, \<open>si\<close> is \<^verbatim>\<open>subset_indices\<close>.
\<close>

fun assign_subsets ::
  "('g \<Rightarrow> nat \<Rightarrow> nat list \<times> 'g) \<Rightarrow> bool \<Rightarrow> nat list list \<Rightarrow> nat list \<Rightarrow> nat
   \<Rightarrow> nat list option list \<Rightarrow> nat list option list \<Rightarrow> 'g
   \<Rightarrow> error + (nat list option list \<times> nat list option list \<times> 'g)" where
  "assign_subsets choice bootstrap pidx [] lb si rpi g = Inr (si, rpi, g)"
| "assign_subsets choice bootstrap pidx (idx # rest) lb si rpi g =
     (let ub = lb + length (pidx ! idx) in
      if bootstrap then
        (case (case rpi ! idx of
                 None \<Rightarrow> (case choice g (ub - lb) of (p, g1) \<Rightarrow> (p, rpi[idx := Some p], g1))
               | Some p \<Rightarrow> (p, rpi, g)) of
           (perm, rpi', g') \<Rightarrow>
             bindE (take_rows [lb..<ub] perm)
               (\<lambda>s. assign_subsets choice bootstrap pidx rest ub (si[idx := Some s]) rpi' g'))
      else assign_subsets choice bootstrap pidx rest ub (si[idx := Some [lb..<ub]]) rpi g)"

text \<open>
  \<^verbatim>\<open>subset_indices[idx]\<close> for an index of \<^verbatim>\<open>active_partitions_1\<close> or \<^verbatim>\<open>active_partitions_2\<close>;
  both are part of \<^verbatim>\<open>active_partitions\<close>, so the entry is never \<^verbatim>\<open>None\<close>.
\<close>

definition subset_at :: "nat list option list \<Rightarrow> nat \<Rightarrow> nat list" where
  "subset_at si idx = (case si ! idx of None \<Rightarrow> [] | Some s \<Rightarrow> s)"

fun acv_subsets_loop ::
  "('g \<Rightarrow> nat \<Rightarrow> nat list \<times> 'g) \<Rightarrow> bool \<Rightarrow> matrix \<Rightarrow> nat \<Rightarrow> nat list list \<Rightarrow> nat list
   \<Rightarrow> nat list list \<Rightarrow> nat list option list \<Rightarrow> 'g
   \<Rightarrow> error + (nat list list \<times> nat list option list \<times> 'g)" where
  "acv_subsets_loop choice bootstrap mat nm pidx [] acc rpi g = Inr (acc, rpi, g)"
| "acv_subsets_loop choice bootstrap mat nm pidx (ii # rest) acc rpi g =
     bindE (assign_subsets choice bootstrap pidx (active_partitions mat ii) 0
              (replicate nm None) rpi g) (\<lambda>(si, rpi', g').
     bindE (np_stack (map (subset_at si) (np_where1 (get_col mat (2 * ii))))) (\<lambda>indices_1.
     bindE (np_stack (map (subset_at si) (np_where1 (get_col mat (2 * ii + 1))))) (\<lambda>indices_2.
       acv_subsets_loop choice bootstrap mat nm pidx rest (acc @ [indices_1, indices_2])
         rpi' g')))"

definition get_partition_indices_per_acv_subset ::
  "('g \<Rightarrow> nat \<Rightarrow> nat list \<times> 'g) \<Rightarrow> estimator \<Rightarrow> bool \<Rightarrow> 'g \<Rightarrow> error + (nat list list \<times> 'g)" where
  "get_partition_indices_per_acv_subset choice est bootstrap g =
     (case rounded_npartition_samples est of
        None \<Rightarrow> Inl AttributeError
      | Some nps \<Rightarrow>
          bindE (get_mat est) (\<lambda>mat.
            let partition_indices = get_partition_indices nps in
            if bootstrap then
              (case choice g (length (partition_indices ! 0)) of
                 (p0, g1) \<Rightarrow>
                   if nps = [] then Inl IndexError
                   else
                     bindE (take_rows (partition_indices ! 0) p0) (\<lambda>s0.
                     bindE (acv_subsets_loop choice True mat (nmodels est) partition_indices
                              [1..<nmodels est] [[], s0]
                              ((replicate (length nps) None)[0 := Some p0]) g1)
                       (\<lambda>(acc, rpi, g'). Inr (acc, g'))))
            else
              bindE (acv_subsets_loop choice False mat (nmodels est) partition_indices
                       [1..<nmodels est] [[], partition_indices ! 0] [] g)
                (\<lambda>(acc, rpi, g'). Inr (acc, g'))))"

text \<open>
  \<^verbatim>\<open>_separate_values_per_model\<close>. The values of a model are a list of rows; the result is the
  flat list of the \<open>2 * nmodels\<close> acv subsets, \<^verbatim>\<open>values_per_model[ii//2][indices[ii]]\<close>.
\<close>

fun gather_acv_values :: "'a list list \<Rightarrow> nat list list \<Rightarrow> nat \<Rightarrow> error + 'a list list" where
  "gather_acv_values values_per_model [] ii = Inr []"
| "gather_acv_values values_per_model (idx # rest) ii =
     bindE (take_rows (values_per_model ! (ii div 2)) idx) (\<lambda>v.
     bindE (gather_acv_values values_per_model rest (Suc ii)) (\<lambda>vs. Inr (v # vs)))"

definition separate_values_per_model ::
  "('g \<Rightarrow> nat \<Rightarrow> nat list \<times> 'g) \<Rightarrow> estimator \<Rightarrow> 'a list list \<Rightarrow> bool \<Rightarrow> 'g
   \<Rightarrow> error + ('a list list \<times> 'g)" where
  "separate_values_per_model choice est values_per_model bootstrap g =
     (if length values_per_model \<noteq> nmodels est then Inl ValueError
      else case rounded_nsamples_per_model est of
        None \<Rightarrow> Inl TypeError
      | Some nsamples \<Rightarrow>
          if \<not> list_all (\<lambda>ii. length (values_per_model ! ii) = nsamples ! ii) [0..<nmodels est]
          then Inl ValueError
          else
            bindE (get_partition_indices_per_acv_subset choice est bootstrap g)
              (\<lambda>(acv_partition_indices, g').
            bindE (gather_acv_values values_per_model acv_partition_indices 0)
              (\<lambda>acv_values. Inr (acv_values, g'))))"

text \<open>
  \<^verbatim>\<open>_combine_acv_values\<close>. Its argument is indexed as \<^verbatim>\<open>acv_values[ii][0]\<close> and
  \<^verbatim>\<open>acv_values[ii][1]\<close>: one entry per model, holding the starred and the plain subset.
\<close>

fun combine_inner ::
  "matrix \<Rightarrow> nat list \<Rightarrow> 'a list list \<Rightarrow> nat \<Rightarrow> nat list \<Rightarrow> nat \<Rightarrow> nat \<Rightarrow> 'a list list
   \<Rightarrow> error + 'a list list" where
  "combine_inner mat nps av ii [] lb lb2 acc = Inr acc"
| "combine_inner mat nps av ii (jj # rest) lb lb2 acc =
     (if mat ! jj ! (2 * ii) = 1 then
        bindE (nth_err av 0) (\<lambda>a0.
          let ub = lb + nps ! jj; acc' = acc @ [slice a0 lb ub] in
          if mat ! jj ! (2 * ii + 1) = 1
          then combine_inner mat nps av ii rest ub (lb2 + nps ! jj) acc'
          else combine_inner mat nps av ii rest ub lb2 acc')
      else if mat ! jj ! (2 * ii + 1) = 1 then
        bindE (nth_err av 1) (\<lambda>a1.
          let ub2 = lb2 + nps ! jj in
          combine_inner mat nps av ii rest lb ub2 (acc @ [slice a1 lb2 ub2]))
      else combine_inner mat nps av ii rest lb lb2 acc)"

fun combine_models ::
  "matrix \<Rightarrow> nat list \<Rightarrow> 'a list list list \<Rightarrow> nat \<Rightarrow> nat list \<Rightarrow> error + 'a list list" where
  "combine_models mat nps acv_values nm [] = Inr []"
| "combine_models mat nps acv_values nm (ii # rest) =
     bindE (nth_err acv_values ii) (\<lambda>av.
     bindE (combine_inner mat nps av ii [0..<nm] 0 0 []) (\<lambda>chunks.
     bindE (np_stack chunks) (\<lambda>v.
     bindE (combine_models mat nps acv_values nm rest) (\<lambda>vs. Inr (v # vs)))))"

definition combine_acv_values ::
  "matrix \<Rightarrow> nat list \<Rightarrow> 'a list list list \<Rightarrow> error + 'a list list" where
  "combine_acv_values mat nps acv_values =
     (let nm = length acv_values in
      bindE (nth_err acv_values 0) (\<lambda>a0.
      bindE (nth_err a0 1) (\<lambda>v0.
      bindE (combine_models mat nps acv_values nm [1..<nm]) (\<lambda>vs. Inr (v0 # vs)))))"

text \<open>
  The flat list of acv subsets regrouped by model: entry \<open>m\<close> holds the subsets \<open>2m\<close> and
  \<open>2m + 1\<close>.
\<close>

fun pair_up :: "'a list \<Rightarrow> 'a list list" where
  "pair_up (x # y # rest) = [x, y] # pair_up rest"
| "pair_up rest = []"

text \<open>A generator for the examples: it always draws the identity.\<close>

definition identity_choice :: "unit \<Rightarrow> nat \<Rightarrow> nat list \<times> unit" where
  "identity_choice g n = ([0..<n], g)"

subsection \<open>The acv subsets in closed form\<close>

text \<open>
  For model \<open>ii\<close>, partition \<open>j\<close> is active in the starred column \<open>2 * ii\<close> or the plain
  column \<open>2 * ii + 1\<close>. The values of a model hold its active partitions one after the
  other: partition \<open>j\<close> starts at the offset \<open>offs A nps j\<close>, the sum of the counts of the
  active partitions before it. Without bootstrap the indices of partition \<open>j\<close> are the
  range from its offset; with bootstrap they are the offset plus the resampled indices
  \<open>perm j\<close> of the partition, the same for every model and both subsets.
\<close>

definition starred_active :: "matrix \<Rightarrow> nat \<Rightarrow> nat \<Rightarrow> bool" where
  "starred_active mat ii j = (mat ! j ! (2 * ii) = 1)"

definition plain_active :: "matrix \<Rightarrow> nat \<Rightarrow> nat \<Rightarrow> bool" where
  "plain_active mat ii j = (mat ! j ! (2 * ii + 1) = 1)"

definition offs :: "(nat \<Rightarrow> bool) \<Rightarrow> nat list \<Rightarrow> nat \<Rightarrow> nat" where
  "offs A nps j = sum_list (map (\<lambda>i. nps ! i) (filter A [0..<j]))"

definition seg :: "bool \<Rightarrow> (nat \<Rightarrow> nat list) \<Rightarrow> (nat \<Rightarrow> bool) \<Rightarrow> nat list \<Rightarrow> nat \<Rightarrow> nat list" where
  "seg bootstrap perm A nps j =
     (if bootstrap then map (\<lambda>k. offs A nps j + k) (perm j)
      else [offs A nps j..<offs A nps j + nps ! j])"

definition subset_indices_of ::
  "bool \<Rightarrow> (nat \<Rightarrow> nat list) \<Rightarrow> matrix \<Rightarrow> nat list \<Rightarrow> nat \<Rightarrow> (nat \<Rightarrow> bool) \<Rightarrow> nat list" where
  "subset_indices_of bootstrap perm mat nps ii F =
     concat (map (seg bootstrap perm (spec_active mat ii) nps) (filter F [0..<length mat]))"

definition acv_subsets_of ::
  "bool \<Rightarrow> (nat \<Rightarrow> nat list) \<Rightarrow> matrix \<Rightarrow> nat list \<Rightarrow> nat \<Rightarrow> nat list list" where
  "acv_subsets_of bootstrap perm mat nps ii =
     [subset_indices_of bootstrap perm mat nps ii (starred_active mat ii),
      subset_indices_of bootstrap perm mat nps ii (plain_active mat ii)]"

definition shared_permutation_subsets ::
  "(nat \<Rightarrow> nat list) \<Rightarrow> matrix \<Rightarrow> nat list \<Rightarrow> nat list list" where
  "shared_permutation_subsets perm mat nps =
     [[], perm 0] @ concat (map (acv_subsets_of True perm mat nps) [1..<length mat])"

text \<open>
  What the proofs need of an allocation matrix: model \<open>0\<close> holds partition \<open>0\<close> only, and
  both columns of every other model have an active partition.
\<close>

definition wf_allocation :: "matrix \<Rightarrow> bool" where
  "wf_allocation mat =
     (0 < length mat
      \<and> filter (spec_active mat 0) [0..<length mat] = [0]
      \<and> list_all (\<lambda>ii. list_ex (starred_active mat ii) [0..<length mat]
                       \<and> list_ex (plain_active mat ii) [0..<length mat]) [1..<length mat])"

text \<open>The rows of partition \<open>j\<close> within the values of a model.\<close>

definition chunk :: "'a list \<Rightarrow> (nat \<Rightarrow> bool) \<Rightarrow> nat list \<Rightarrow> nat \<Rightarrow> 'a list" where
  "chunk vals A nps j = slice vals (offs A nps j) (offs A nps j + nps ! j)"

text \<open>
  The resampled indices cached so far (\<^verbatim>\<open>random_partition_indices\<close>): every cached entry has
  the size of its partition and indexes into it. \<open>perm_of\<close> reads the cache.
\<close>

definition cache_ok :: "nat list option list \<Rightarrow> nat list \<Rightarrow> bool" where
  "cache_ok rpi nps =
     (length rpi = length nps
      \<and> list_all (\<lambda>j. case rpi ! j of
                         None \<Rightarrow> True
                       | Some p \<Rightarrow> length p = nps ! j \<and> list_all (\<lambda>k. k < nps ! j) p)
           [0..<length nps])"

definition perm_of :: "nat list option list \<Rightarrow> nat \<Rightarrow> nat list" where
  "perm_of rpi j = (case rpi ! j of None \<Rightarrow> [] | Some p \<Rightarrow> p)"

text \<open>
  A generator for the examples whose draws differ from call to call: the state counts, and
  a draw of size \<open>n\<close> is the rotation of \<open>0, ..., n - 1\<close> by the state.
\<close>

definition rotate_choice :: "nat \<Rightarrow> nat \<Rightarrow> nat list \<times> nat" where
  "rotate_choice g n = (map (\<lambda>k. (k + g) mod n) [0..<n], g + 2)"

section \<open>Control-variate weights\<close>

text \<open>
  \<^verbatim>\<open>_weights(CF, cf)\<close>. The class of the estimator decides which method runs:
  \<^verbatim>\<open>CVEstimator._weights\<close> is inherited by \<^verbatim>\<open>ACVEstimator\<close> and by its subclasses
  \<^verbatim>\<open>GMFEstimator\<close>, \<^verbatim>\<open>GISEstimator\<close>, \<^verbatim>\<open>GRDEstimator\<close> and \<^verbatim>\<open>MFMCEstimator\<close>; the subclass
  \<^verbatim>\<open>MLMCEstimator\<close> of \<^verbatim>\<open>GRDEstimator\<close> overrides it. A two-dimensional tensor with at least
  one row and one column is the list of its rows. \<^verbatim>\<open>torch.linalg.pinv\<close> and
  \<^verbatim>\<open>torch.linalg.multi_dot\<close> are library routines: they are parameters, and so is the type
  of the entries; both may raise. In \<^verbatim>\<open>-torch.linalg.multi_dot((pinv(CF), cf.T)).T\<close> the
  transposition binds tighter than the unary minus, which negates every entry.
\<close>

datatype estimator_class =
  CVEstimator | ACVEstimator | GMFEstimator | GISEstimator | GRDEstimator
  | MFMCEstimator | MLMCEstimator








section \<open>Matrices given by their entries\<close>


lemma mk_mat_length [simp]: "length (mk_mat R C f) = R"
  by (simp add: mk_mat_def)

lemma mk_mat_row: "r < R \<Longrightarrow> mk_mat R C f ! r = map (f r) [0..<C]"
  by (simp add: mk_mat_def)

lemma mk_mat_entry [simp]: "r < R \<Longrightarrow> c < C \<Longrightarrow> mk_mat R C f ! r ! c = f r c"
  by (simp add: mk_mat_row)

lemma mk_mat_cong:
  "(\<And>r c. r < R \<Longrightarrow> c < C \<Longrightarrow> f r c = g r c) \<Longrightarrow> mk_mat R C f = mk_mat R C g"
  by (simp add: mk_mat_def)

lemma zeros_mk_mat: "zeros R C = mk_mat R C (\<lambda>r c. 0)"
  by (simp add: zeros_def mk_mat_def map_replicate_const)

lemma set_entry_mk_mat:
  assumes "r < R"
  shows "set_entry (mk_mat R C f) r c v
         = mk_mat R C (\<lambda>r' c'. if r' = r \<and> c' = c then v else f r' c')"
proof (rule nth_equalityI)
  show "length (set_entry (mk_mat R C f) r c v)
        = length (mk_mat R C (\<lambda>r' c'. if r' = r \<and> c' = c then v else f r' c'))"
    by (simp add: set_entry_def)
next
  fix i assume "i < length (set_entry (mk_mat R C f) r c v)"
  then have i: "i < R" by (simp add: set_entry_def)
  show "set_entry (mk_mat R C f) r c v ! i
        = mk_mat R C (\<lambda>r' c'. if r' = r \<and> c' = c then v else f r' c') ! i"
  proof (cases "i = r")
    case True
    then show ?thesis using assms
      by (auto simp: set_entry_def mk_mat_row intro!: nth_equalityI simp: nth_list_update)
  next
    case False
    then show ?thesis using assms i by (simp add: set_entry_def mk_mat_row)
  qed
qed

lemma get_col_mk_mat: "c < C \<Longrightarrow> get_col (mk_mat R C f) c = map (\<lambda>r. f r c) [0..<R]"
  by (simp add: get_col_def mk_mat_def)

lemma set_col_mk_mat:
  assumes "length v = R"
  shows "set_col (mk_mat R C f) c v = mk_mat R C (\<lambda>r c'. if c' = c then v ! r else f r c')"
proof (rule nth_equalityI)
  show "length (set_col (mk_mat R C f) c v)
        = length (mk_mat R C (\<lambda>r c'. if c' = c then v ! r else f r c'))"
    using assms by (simp add: set_col_def)
next
  fix i assume "i < length (set_col (mk_mat R C f) c v)"
  then have i: "i < R" using assms by (simp add: set_col_def)
  then show "set_col (mk_mat R C f) c v ! i
             = mk_mat R C (\<lambda>r c'. if c' = c then v ! r else f r c') ! i"
    using assms by (auto simp: set_col_def mk_mat_row intro!: nth_equalityI simp: nth_list_update)
qed

lemma set_col_upto_mk_mat:
  assumes "II \<le> R"
  shows "set_col_upto (mk_mat R C f) II c
         = mk_mat R C (\<lambda>r c'. if r < II \<and> c' = c then 1 else f r c')"
proof (rule nth_equalityI)
  show "length (set_col_upto (mk_mat R C f) II c)
        = length (mk_mat R C (\<lambda>r c'. if r < II \<and> c' = c then 1 else f r c'))"
    using assms by (simp add: set_col_upto_def)
next
  fix i assume "i < length (set_col_upto (mk_mat R C f) II c)"
  then have i: "i < R" using assms by (simp add: set_col_upto_def)
  show "set_col_upto (mk_mat R C f) II c ! i
        = mk_mat R C (\<lambda>r c'. if r < II \<and> c' = c then 1 else f r c') ! i"
  proof (cases "i < II")
    case True
    then show ?thesis using assms i
      by (auto simp: set_col_upto_def nth_append mk_mat_row intro!: nth_equalityI simp: nth_list_update)
  next
    case False
    then show ?thesis using assms i
      by (simp add: set_col_upto_def nth_append mk_mat_row)
  qed
qed

lemma np_where1_map: "np_where1 (map g [0..<R]) = filter (\<lambda>i. g i = 1) [0..<R]"
  by (auto simp: np_where1_def intro: filter_cong)



lemma mark_plain_mk_mat:
  "b \<le> R \<Longrightarrow> mark_plain [a..<b] (mk_mat R C f)
     = mk_mat R C (\<lambda>r c. if a \<le> r \<and> r < b \<and> c = 2 * r + 1 then 1 else f r c)"
proof (induction "b - a" arbitrary: a f)
  case 0
  then have e: "[a..<b] = []" by simp
  have "mk_mat R C (\<lambda>r c. if a \<le> r \<and> r < b \<and> c = 2 * r + 1 then 1 else f r c) = mk_mat R C f"
    using 0 by (intro mk_mat_cong) auto
  then show ?case unfolding e by simp
next
  case (Suc n)
  then have ab: "a < b" and n: "n = b - Suc a" by simp_all
  have "mark_plain [a..<b] (mk_mat R C f)
        = mark_plain [Suc a..<b] (set_entry (mk_mat R C f) a (2 * a + 1) 1)"
    using ab by (simp add: upt_conv_Cons)
  also have "\<dots> = mark_plain [Suc a..<b]
      (mk_mat R C (\<lambda>r' c'. if r' = a \<and> c' = 2 * a + 1 then 1 else f r' c'))"
  proof -
    have "a < R" using ab Suc.prems by simp
    then show ?thesis by (simp only: set_entry_mk_mat)
  qed
  also have "\<dots> = mk_mat R C (\<lambda>r c. if Suc a \<le> r \<and> r < b \<and> c = 2 * r + 1 then 1
       else if r = a \<and> c = 2 * a + 1 then 1 else f r c)"
    using Suc.hyps(1)[OF n Suc.prems] .
  also have "\<dots> = mk_mat R C (\<lambda>r c. if a \<le> r \<and> r < b \<and> c = 2 * r + 1 then 1 else f r c)"
    using ab by (intro mk_mat_cong) auto
  finally show ?case .
qed



lemma valid_parent:
  "valid_recursion_index rec \<Longrightarrow> 1 \<le> m \<Longrightarrow> m \<le> length rec \<Longrightarrow>
   0 \<le> rec ! (m - 1) \<and> parent rec m \<le> length rec"
proof -
  assume v: "valid_recursion_index rec" and m: "1 \<le> m" "m \<le> length rec"
  then have "m - 1 < length rec" by simp
  with v have "0 \<le> rec ! (m - 1) \<and> rec ! (m - 1) \<le> int (length rec)"
    unfolding valid_recursion_index_def list_all_length by blast
  then show ?thesis by (simp add: parent_def nat_le_iff)
qed

lemma copy_parent_mk_mat:
  assumes "valid_recursion_index rec" and "M = length rec + 1"
  shows "1 \<le> a \<Longrightarrow> b \<le> M \<Longrightarrow> (\<And>r c. odd c \<Longrightarrow> f r c = unit_col (c div 2) r) \<Longrightarrow>
    copy_parent M rec [a..<b] (mk_mat M (2 * M) f)
     = Inr (mk_mat M (2 * M) (\<lambda>r c. if even c \<and> 2 * a \<le> c \<and> c < 2 * b
                                   then unit_col (parent rec (c div 2)) r else f r c))"
proof (induction "b - a" arbitrary: a f)
  case 0
  then have e: "[a..<b] = []" by simp
  have "mk_mat M (2 * M) (\<lambda>r c. if even c \<and> 2 * a \<le> c \<and> c < 2 * b
                                   then unit_col (parent rec (c div 2)) r else f r c) = mk_mat M (2 * M) f"
    using 0 by (intro mk_mat_cong) auto
  then show ?case unfolding e by simp
next
  case (Suc n)
  then have ab: "a < b" and n: "n = b - Suc a" by simp_all
  let ?p = "parent rec a"
  have p: "0 \<le> rec ! (a - 1)" "?p \<le> length rec"
    using valid_parent[OF assms(1), of a] Suc.prems ab assms(2) by auto
  have ci: "col_index (2 * M) (rec ! (a - 1) * 2 + 1) = Inr (2 * ?p + 1)"
    using p assms(2) by (auto simp: col_index_def parent_def)
  let ?f' = "\<lambda>r c. if c = 2 * a then unit_col ?p r else f r c"
  have sc: "set_col (mk_mat M (2 * M) f) (2 * a) (get_col (mk_mat M (2 * M) f) (2 * ?p + 1))
        = mk_mat M (2 * M) ?f'"
  proof -
    have "get_col (mk_mat M (2 * M) f) (2 * ?p + 1) = map (\<lambda>r. f r (2 * ?p + 1)) [0..<M]"
      using p assms(2) by (intro get_col_mk_mat) simp
    then have "set_col (mk_mat M (2 * M) f) (2 * a) (get_col (mk_mat M (2 * M) f) (2 * ?p + 1))
        = mk_mat M (2 * M) (\<lambda>r c'. if c' = 2 * a then map (\<lambda>r. f r (2 * ?p + 1)) [0..<M] ! r else f r c')"
      by (simp only: set_col_mk_mat length_map length_upt minus_nat.diff_0)
    also have "\<dots> = mk_mat M (2 * M) ?f'"
      by (intro mk_mat_cong) (simp add: Suc.prems(3))
    finally show ?thesis .
  qed
  have odd': "\<And>r c. odd c \<Longrightarrow> ?f' r c = unit_col (c div 2) r"
    using Suc.prems(3) by auto
  have "copy_parent M rec [a..<b] (mk_mat M (2 * M) f)
        = copy_parent M rec [Suc a..<b] (mk_mat M (2 * M) ?f')"
    using ab ci sc by (simp add: upt_conv_Cons)
  also have "\<dots> = Inr (mk_mat M (2 * M) (\<lambda>r c. if even c \<and> 2 * Suc a \<le> c \<and> c < 2 * b
                                   then unit_col (parent rec (c div 2)) r else ?f' r c))"
    using Suc.hyps(1)[OF n _ Suc.prems(2), of ?f'] odd' by simp
  also have "\<dots> = Inr (mk_mat M (2 * M) (\<lambda>r c. if even c \<and> 2 * a \<le> c \<and> c < 2 * b
                                   then unit_col (parent rec (c div 2)) r else f r c))"
  proof -
    have "mk_mat M (2 * M) (\<lambda>r c. if even c \<and> 2 * Suc a \<le> c \<and> c < 2 * b
                                   then unit_col (parent rec (c div 2)) r else ?f' r c)
      = mk_mat M (2 * M) (\<lambda>r c. if even c \<and> 2 * a \<le> c \<and> c < 2 * b
                                   then unit_col (parent rec (c div 2)) r else f r c)"
      using ab by (intro mk_mat_cong) (auto elim!: evenE)
    then show ?thesis by simp
  qed
  finally show ?case .
qed

lemma filter_unit: "q < M \<Longrightarrow> filter (\<lambda>i. unit_col q i = (1::nat)) [0..<M] = [q]"
proof (induction M)
  case 0 then show ?case by simp
next
  case (Suc M)
  show ?case
  proof (cases "q = M")
    case True
    have "filter (\<lambda>i. unit_col q i = (1::nat)) [0..<M] = []"
      using True by (auto simp: filter_empty_conv unit_col_def)
    then show ?thesis using True by (simp add: unit_col_def)
  next
    case False
    then have "q < M" using Suc.prems by simp
    then show ?thesis using Suc.IH False by (simp add: unit_col_def)
  qed
qed

lemma propagate_mk_mat:
  "b \<le> C \<Longrightarrow> (\<And>c. a \<le> c \<Longrightarrow> c < b \<Longrightarrow> q c < M \<and> (\<forall>r<M. f r c = unit_col (q c) r)) \<Longrightarrow>
    propagate [a..<b] (mk_mat M C f)
     = Inr (mk_mat M C (\<lambda>r c. if a \<le> c \<and> c < b
                                   then (if r \<le> q c then 1 else 0) else f r c))"
proof (induction "b - a" arbitrary: a f)
  case 0
  then have e: "[a..<b] = []" by simp
  have "mk_mat M C (\<lambda>r c. if a \<le> c \<and> c < b
                                   then (if r \<le> q c then 1 else 0) else f r c) = mk_mat M C f"
    using 0 by (intro mk_mat_cong) auto
  then show ?case unfolding e by simp
next
  case (Suc n)
  then have ab: "a < b" and n: "n = b - Suc a" by simp_all
  have qa: "q a < M" "\<forall>r<M. f r a = unit_col (q a) r" using Suc.prems(2)[of a] ab by auto
  have gc: "get_col (mk_mat M C f) a = map (\<lambda>r. f r a) [0..<M]"
    using ab Suc.prems(1) by (intro get_col_mk_mat) simp
  have "filter (\<lambda>i. f i a = 1) [0..<M] = filter (\<lambda>i. unit_col (q a) i = 1) [0..<M]"
    using qa(2) by (intro filter_cong) auto
  then have w: "np_where1 (get_col (mk_mat M C f) a) = [q a]"
    using qa(1) by (simp only: gc np_where1_map filter_unit)
  let ?f' = "\<lambda>r c'. if r < q a \<and> c' = a then 1 else f r c'"
  have su: "set_col_upto (mk_mat M C f) (q a) a = mk_mat M C ?f'"
    using qa(1) by (intro set_col_upto_mk_mat) simp
  have pre: "\<And>c. Suc a \<le> c \<Longrightarrow> c < b \<Longrightarrow> q c < M \<and> (\<forall>r<M. ?f' r c = unit_col (q c) r)"
    using Suc.prems(2) by auto
  have "propagate [a..<b] (mk_mat M C f) = propagate [Suc a..<b] (mk_mat M C ?f')"
    using ab w su by (simp add: upt_conv_Cons)
  also have "\<dots> = Inr (mk_mat M C (\<lambda>r c. if Suc a \<le> c \<and> c < b
                                   then (if r \<le> q c then 1 else 0) else ?f' r c))"
    using Suc.hyps(1)[OF n Suc.prems(1), of ?f'] pre by simp
  also have "\<dots> = Inr (mk_mat M C (\<lambda>r c. if a \<le> c \<and> c < b
                                   then (if r \<le> q c then 1 else 0) else f r c))"
  proof -
    have "mk_mat M C (\<lambda>r c. if Suc a \<le> c \<and> c < b
                                   then (if r \<le> q c then 1 else 0) else ?f' r c)
        = mk_mat M C (\<lambda>r c. if a \<le> c \<and> c < b
                                   then (if r \<le> q c then 1 else 0) else f r c)"
    proof (intro mk_mat_cong)
      fix r c assume rc: "r < M" "c < C"
      show "(if Suc a \<le> c \<and> c < b then (if r \<le> q c then 1 else 0) else ?f' r c)
            = (if a \<le> c \<and> c < b then (if r \<le> q c then 1 else 0) else f r c)"
      proof (cases "c = a")
        case True
        then show ?thesis using ab qa rc by (auto simp: unit_col_def)
      next
        case False
        then show ?thesis by auto
      qed
    qed
    then show ?thesis by simp
  qed
  finally show ?case .
qed







lemma saturate_mk_mat:
  "b \<le> M \<Longrightarrow> saturate [a..<b] (mk_mat M (2 * M) f)
     = mk_mat M (2 * M) (\<lambda>r c. if odd c \<and> 2 * a + 1 \<le> c \<and> c < 2 * b
                                then max (f r (c - 1)) (f r c) else f r c)"
proof (induction "b - a" arbitrary: a f)
  case 0
  then have e: "[a..<b] = []" by simp
  have "mk_mat M (2 * M) (\<lambda>r c. if odd c \<and> 2 * a + 1 \<le> c \<and> c < 2 * b
                                then max (f r (c - 1)) (f r c) else f r c) = mk_mat M (2 * M) f"
    using 0 by (intro mk_mat_cong) auto
  then show ?case unfolding e by simp
next
  case (Suc n)
  then have ab: "a < b" and n: "n = b - Suc a" by simp_all
  then have c1: "2 * a < 2 * M" and c2: "2 * a + 1 < 2 * M" using Suc.prems by simp_all
  let ?f' = "\<lambda>r c. if c = 2 * a + 1 then max (f r (2 * a)) (f r (2 * a + 1)) else f r c"
  have m2: "map2 max (map (\<lambda>r. f r (2 * a)) [0..<M]) (map (\<lambda>r. f r (2 * a + 1)) [0..<M])
        = map (\<lambda>r. max (f r (2 * a)) (f r (2 * a + 1))) [0..<M]"
    by (rule nth_equalityI) simp_all
  have "set_col (mk_mat M (2 * M) f) (2 * a + 1)
          (map2 max (get_col (mk_mat M (2 * M) f) (2 * a)) (get_col (mk_mat M (2 * M) f) (2 * a + 1)))
        = mk_mat M (2 * M) (\<lambda>r c'. if c' = 2 * a + 1
              then map (\<lambda>r. max (f r (2 * a)) (f r (2 * a + 1))) [0..<M] ! r else f r c')"
    by (simp only: get_col_mk_mat[OF c1] get_col_mk_mat[OF c2] m2 set_col_mk_mat length_map
          length_upt minus_nat.diff_0)
  also have "\<dots> = mk_mat M (2 * M) ?f'"
    by (intro mk_mat_cong) simp
  finally have sc: "set_col (mk_mat M (2 * M) f) (2 * a + 1)
          (map2 max (get_col (mk_mat M (2 * M) f) (2 * a)) (get_col (mk_mat M (2 * M) f) (2 * a + 1)))
        = mk_mat M (2 * M) ?f'" .
  have "saturate [a..<b] (mk_mat M (2 * M) f) = saturate [Suc a..<b] (mk_mat M (2 * M) ?f')"
    using ab by (simp only: upt_conv_Cons saturate.simps sc)
  also have "\<dots> = mk_mat M (2 * M) (\<lambda>r c. if odd c \<and> 2 * Suc a + 1 \<le> c \<and> c < 2 * b
                                then max (?f' r (c - 1)) (?f' r c) else ?f' r c)"
    using Suc.hyps(1)[OF n Suc.prems, of ?f'] .
  also have "\<dots> = mk_mat M (2 * M) (\<lambda>r c. if odd c \<and> 2 * a + 1 \<le> c \<and> c < 2 * b
                                then max (f r (c - 1)) (f r c) else f r c)"
  proof (intro mk_mat_cong)
    fix r c assume rc: "r < M" "c < 2 * M"
    show "(if odd c \<and> 2 * Suc a + 1 \<le> c \<and> c < 2 * b
                                then max (?f' r (c - 1)) (?f' r c) else ?f' r c)
        = (if odd c \<and> 2 * a + 1 \<le> c \<and> c < 2 * b
                                then max (f r (c - 1)) (f r c) else f r c)"
    proof (cases "c = 2 * a + 1")
      case True
      then show ?thesis using ab by auto
    next
      case False
      then show ?thesis by (auto elim!: oddE)
    qed
  qed
  finally show ?case .
qed

lemma plain_closed:
  "mark_plain [0..<M] (zeros M (2 * M))
   = mk_mat M (2 * M) (\<lambda>r c. if c = 2 * r + 1 then 1 else 0)"
proof -
  have "mark_plain [0..<M] (mk_mat M (2 * M) (\<lambda>r c. 0))
      = mk_mat M (2 * M) (\<lambda>r c. if 0 \<le> r \<and> r < M \<and> c = 2 * r + 1 then 1 else 0)"
    by (rule mark_plain_mk_mat) simp
  also have "\<dots> = mk_mat M (2 * M) (\<lambda>r c. if c = 2 * r + 1 then 1 else 0)"
    by (intro mk_mat_cong) simp
  finally show ?thesis by (simp only: zeros_mk_mat)
qed

lemma grd_closed:
  assumes "valid_recursion_index rec"
  shows "get_allocation_matrix_acvrd rec
         = Inr (mk_mat (length rec + 1) (2 * (length rec + 1)) (grd_entry rec))"
proof -
  let ?M = "length rec + 1"
  let ?f = "\<lambda>r c::nat. if c = 2 * r + 1 then 1 else (0::nat)"
  have odd: "\<And>r c. odd c \<Longrightarrow> ?f r c = unit_col (c div 2) r"
    by (auto simp: unit_col_def elim!: oddE)
  have "copy_parent ?M rec [1..<?M] (mk_mat ?M (2 * ?M) ?f)
     = Inr (mk_mat ?M (2 * ?M) (\<lambda>r c. if even c \<and> 2 * 1 \<le> c \<and> c < 2 * ?M
                                   then unit_col (parent rec (c div 2)) r else ?f r c))"
    by (rule copy_parent_mk_mat[OF assms refl _ _ odd]) simp_all
  also have "mk_mat ?M (2 * ?M) (\<lambda>r c. if even c \<and> 2 * 1 \<le> c \<and> c < 2 * ?M
                                   then unit_col (parent rec (c div 2)) r else ?f r c)
      = mk_mat ?M (2 * ?M) (grd_entry rec)"
  proof (intro mk_mat_cong)
    fix r c :: nat
    have "c = 0 \<or> c = 1 \<or> 2 \<le> c" by arith
    then consider "odd c" | "even c" "2 \<le> c" | "c = 0" by auto
    then show "(if even c \<and> 2 * 1 \<le> c \<and> c < 2 * ?M
                 then unit_col (parent rec (c div 2)) r else ?f r c) = grd_entry rec r c"
      if "c < 2 * ?M"
    proof cases
      case 1
      then show ?thesis by (auto simp: grd_entry_def unit_col_def elim!: oddE)
    next
      case 2
      then show ?thesis using that by (auto simp: grd_entry_def)
    next
      case 3
      then show ?thesis by (simp add: grd_entry_def)
    qed
  qed
  finally show ?thesis
    unfolding get_allocation_matrix_acvrd_def Let_def plain_closed .
qed

lemma copy_parent_closed:
  assumes "valid_recursion_index rec"
  shows "copy_parent (length rec + 1) rec [1..<length rec + 1]
           (mark_plain [0..<length rec + 1] (zeros (length rec + 1) (2 * (length rec + 1))))
         = Inr (mk_mat (length rec + 1) (2 * (length rec + 1)) (grd_entry rec))"
  using grd_closed[OF assms] unfolding get_allocation_matrix_acvrd_def Let_def .

lemma gis_closed:
  assumes "valid_recursion_index rec"
  shows "get_allocation_matrix_acvis rec
         = Inr (mk_mat (length rec + 1) (2 * (length rec + 1)) (gis_entry rec))"
proof -
  let ?M = "length rec + 1"
  have "saturate [1..<?M] (mk_mat ?M (2 * ?M) (grd_entry rec))
      = mk_mat ?M (2 * ?M) (\<lambda>r c. if odd c \<and> 2 * 1 + 1 \<le> c \<and> c < 2 * ?M
                                then max (grd_entry rec r (c - 1)) (grd_entry rec r c)
                                else grd_entry rec r c)"
    by (rule saturate_mk_mat) simp
  also have "\<dots> = mk_mat ?M (2 * ?M) (gis_entry rec)"
    by (intro mk_mat_cong) (simp add: gis_entry_def)
  finally show ?thesis
    unfolding get_allocation_matrix_acvis_def Let_def copy_parent_closed[OF assms]
    by simp
qed

lemma gmf_closed:
  assumes "valid_recursion_index rec"
  shows "get_allocation_matrix_gmf rec
         = Inr (mk_mat (length rec + 1) (2 * (length rec + 1)) (gmf_entry rec))"
proof -
  let ?M = "length rec + 1"
  have q: "\<And>c. 2 \<le> c \<Longrightarrow> c < 2 * ?M \<Longrightarrow>
     active_top rec c < ?M \<and> (\<forall>r<?M. grd_entry rec r c = unit_col (active_top rec c) r)"
  proof -
    fix c assume c: "2 \<le> c" "c < 2 * ?M"
    show "active_top rec c < ?M \<and> (\<forall>r<?M. grd_entry rec r c = unit_col (active_top rec c) r)"
    proof (cases "odd c")
      case True
      then show ?thesis using c by (auto simp: active_top_def grd_entry_def)
    next
      case False
      then have "1 \<le> c div 2" "c div 2 \<le> length rec" using c by auto
      then have "parent rec (c div 2) \<le> length rec"
        using valid_parent[OF assms] by blast
      then show ?thesis using False c by (auto simp: active_top_def grd_entry_def)
    qed
  qed
  have "propagate [2..<2 * ?M] (mk_mat ?M (2 * ?M) (grd_entry rec))
      = Inr (mk_mat ?M (2 * ?M) (\<lambda>r c. if 2 \<le> c \<and> c < 2 * ?M
             then (if r \<le> active_top rec c then 1 else 0) else grd_entry rec r c))"
    by (rule propagate_mk_mat[OF _ q]) simp_all
  also have "mk_mat ?M (2 * ?M) (\<lambda>r c. if 2 \<le> c \<and> c < 2 * ?M
             then (if r \<le> active_top rec c then 1 else 0) else grd_entry rec r c)
      = mk_mat ?M (2 * ?M) (gmf_entry rec)"
    by (intro mk_mat_cong) (simp add: gmf_entry_def)
  finally show ?thesis
    unfolding get_allocation_matrix_gmf_def Let_def copy_parent_closed[OF assms]
    by simp
qed


section \<open>The GMF and GIS matrices against the specification\<close>


lemma spec_unit_plain_mk_mat:
  "spec_unit_plain M = mk_mat M (2 * M) (\<lambda>r c. if c = 2 * r + 1 then 1 else 0)"
  by (simp only: spec_unit_plain_def mk_mat_def)

lemma grd_entry_plain: "grd_entry rec r (2 * p + 1) = unit_col p r"
  by (simp add: grd_entry_def)

lemma spec_mirror_parent_closed:
  assumes "valid_recursion_index rec"
  shows "spec_mirror_parent (length rec + 1) rec (spec_unit_plain (length rec + 1))
         = mk_mat (length rec + 1) (2 * (length rec + 1)) (grd_entry rec)"
proof -
  let ?M = "length rec + 1"
  let ?A = "mk_mat ?M (2 * ?M) (\<lambda>r c. if c = 2 * r + 1 then 1 else (0::nat))"
  have "spec_mirror_parent ?M rec ?A
      = mk_mat ?M (2 * ?M) (\<lambda>r c. if even c \<and> 2 \<le> c
                        then ?A ! r ! (2 * nat (rec ! (c div 2 - 1)) + 1)
                        else ?A ! r ! c)"
    by (simp only: spec_mirror_parent_def mk_mat_def)
  also have "\<dots> = mk_mat ?M (2 * ?M) (grd_entry rec)"
  proof (intro mk_mat_cong)
    fix r c assume rc: "r < ?M" "c < 2 * ?M"
    have "c = 0 \<or> c = 1 \<or> 2 \<le> c" by arith
    then consider "odd c" | "even c" "2 \<le> c" | "c = 0" by auto
    then show "(if even c \<and> 2 \<le> c
                        then ?A ! r ! (2 * nat (rec ! (c div 2 - 1)) + 1)
                        else ?A ! r ! c) = grd_entry rec r c"
    proof cases
      case 1
      then show ?thesis using rc
        by (auto simp: grd_entry_def unit_col_def elim!: oddE)
    next
      case 2
      then have "1 \<le> c div 2" "c div 2 \<le> length rec" using rc by auto
      then have "parent rec (c div 2) \<le> length rec"
        using valid_parent[OF assms] by blast
      then have "2 * nat (rec ! (c div 2 - 1)) + 1 < 2 * ?M"
        by (simp add: parent_def)
      then show ?thesis using 2 rc
        by (auto simp: grd_entry_def unit_col_def parent_def)
    next
      case 3
      then show ?thesis using rc by (simp add: grd_entry_def)
    qed
  qed
  finally show ?thesis by (simp only: spec_unit_plain_mk_mat)
qed

lemma active_top_bound:
  assumes "valid_recursion_index rec" "2 \<le> c" "c < 2 * (length rec + 1)"
  shows "active_top rec c < length rec + 1"
    and "r < length rec + 1 \<Longrightarrow> grd_entry rec r c = unit_col (active_top rec c) r"
proof -
  show "active_top rec c < length rec + 1"
  proof (cases "odd c")
    case True
    then show ?thesis using assms by (auto simp: active_top_def)
  next
    case False
    then have "1 \<le> c div 2" "c div 2 \<le> length rec" using assms by auto
    then have "parent rec (c div 2) \<le> length rec"
      using valid_parent[OF assms(1)] by blast
    then show ?thesis using False by (simp add: active_top_def)
  qed
  show "grd_entry rec r c = unit_col (active_top rec c) r"
    using assms by (simp add: active_top_def grd_entry_def)
qed

lemma spec_lowest_active_closed:
  assumes "valid_recursion_index rec" "2 \<le> c" "c < 2 * (length rec + 1)"
  shows "spec_lowest_active (length rec + 1)
           (mk_mat (length rec + 1) (2 * (length rec + 1)) (grd_entry rec)) c
         = Some (active_top rec c)"
proof -
  let ?M = "length rec + 1"
  have "filter (\<lambda>r. mk_mat ?M (2 * ?M) (grd_entry rec) ! r ! c = 1) [0..<?M]
      = filter (\<lambda>r. unit_col (active_top rec c) r = 1) [0..<?M]"
    using assms active_top_bound(2)[OF assms] by (intro filter_cong) auto
  also have "\<dots> = [active_top rec c]"
    using active_top_bound(1)[OF assms] by (rule filter_unit)
  finally show ?thesis by (simp only: spec_lowest_active_def list.case)
qed

lemma spec_gmf_closed:
  assumes "valid_recursion_index rec"
  shows "spec_gmf rec = mk_mat (length rec + 1) (2 * (length rec + 1)) (gmf_entry rec)"
proof -
  let ?M = "length rec + 1"
  let ?A = "mk_mat ?M (2 * ?M) (grd_entry rec)"
  have "spec_subsume_lower ?M ?A
      = mk_mat ?M (2 * ?M) (\<lambda>r c. if 2 \<le> c
                        then (case spec_lowest_active ?M ?A c of
                                None \<Rightarrow> ?A ! r ! c
                              | Some r0 \<Rightarrow> if r < r0 then 1 else ?A ! r ! c)
                        else ?A ! r ! c)"
    by (simp only: spec_subsume_lower_def mk_mat_def)
  also have "\<dots> = mk_mat ?M (2 * ?M) (gmf_entry rec)"
  proof (intro mk_mat_cong)
    fix r c assume rc: "r < ?M" "c < 2 * ?M"
    show "(if 2 \<le> c
                        then (case spec_lowest_active ?M ?A c of
                                None \<Rightarrow> ?A ! r ! c
                              | Some r0 \<Rightarrow> if r < r0 then 1 else ?A ! r ! c)
                        else ?A ! r ! c) = gmf_entry rec r c"
    proof (cases "2 \<le> c")
      case True
      have e: "?A ! r ! c = unit_col (active_top rec c) r"
        using rc active_top_bound(2)[OF assms True rc(2) rc(1)] by simp
      have l: "spec_lowest_active ?M ?A c = Some (active_top rec c)"
        by (rule spec_lowest_active_closed[OF assms True rc(2)])
      show ?thesis
        unfolding l e option.case gmf_entry_def using True
        by (auto simp: unit_col_def)
    next
      case False
      then show ?thesis using rc by (simp add: gmf_entry_def)
    qed
  qed
  finally show ?thesis
    by (simp only: spec_gmf_def Let_def spec_mirror_parent_closed[OF assms])
qed

lemma mk_mat_shape:
  "row \<in> set (mk_mat R C f) \<Longrightarrow> length row = C"
  by (auto simp: mk_mat_def)

lemma gmf_entry_binary: "gmf_entry rec r c \<in> {0, 1}"
  by (simp add: gmf_entry_def grd_entry_def unit_col_def)

lemma mk_mat_gmf_binary:
  assumes "row \<in> set (mk_mat R C (gmf_entry rec))"
  shows "set row \<subseteq> {0, 1}"
proof -
  from assms obtain r where "row = map (gmf_entry rec r) [0..<C]"
    by (auto simp: mk_mat_def)
  then have "set row = gmf_entry rec r ` {0..<C}" by simp
  also have "\<dots> \<subseteq> {0, 1}" by (rule image_subsetI) (rule gmf_entry_binary)
  finally show ?thesis .
qed

text \<open>
  Claim C1. For every recursion index of length \<open>M - 1\<close> with values in \<open>[0, M - 1]\<close>,
  \<^verbatim>\<open>_get_allocation_matrix_gmf\<close> returns without error the \<open>(M, 2M)\<close> binary matrix of the
  three stages of the specification: unit plain columns, starred columns mirroring the
  parent's plain column, and, in every column \<open>c \<ge> 2\<close>, all rows below the lowest-indexed
  active row made active. (The source takes the last active row of the column; the column
  has exactly one active row when the loop reaches it.)
\<close>

theorem gmf_allocation_matrix_matches_spec:
  assumes "valid_recursion_index index"
  shows "get_allocation_matrix_gmf index = Inr (spec_gmf index)
         \<and> length (spec_gmf index) = length index + 1
         \<and> (\<forall>row \<in> set (spec_gmf index).
              length row = 2 * (length index + 1) \<and> set row \<subseteq> {0, 1})"
  using gmf_closed[OF assms] spec_gmf_closed[OF assms] mk_mat_gmf_binary
  by (simp add: mk_mat_shape)

text \<open>
  Claim C1, witness: the recursion index \<open>[0, 1]\<close> of three models.
\<close>

theorem gmf_allocation_matrix_matches_spec_witness:
  "valid_recursion_index [0, 1]
   \<and> get_allocation_matrix_gmf [0, 1]
       = Inr [[0, 1, 1, 1, 1, 1], [0, 0, 0, 1, 1, 1], [0, 0, 0, 0, 0, 1]]"
proof -
  have v: "valid_recursion_index [0, 1]"
    by (simp add: valid_recursion_index_def)
  have s: "spec_gmf [0, 1] = [[0, 1, 1, 1, 1, 1], [0, 0, 0, 1, 1, 1], [0, 0, 0, 0, 0, 1]]"
    by code_simp
  show ?thesis
    using gmf_allocation_matrix_matches_spec[OF v] v s by simp
qed

lemma spec_saturate_plain_closed:
  "spec_saturate_plain (length rec + 1)
     (mk_mat (length rec + 1) (2 * (length rec + 1)) (grd_entry rec))
   = mk_mat (length rec + 1) (2 * (length rec + 1)) (gis_entry rec)"
proof -
  let ?M = "length rec + 1"
  let ?A = "mk_mat ?M (2 * ?M) (grd_entry rec)"
  have "spec_saturate_plain ?M ?A
      = mk_mat ?M (2 * ?M)
          (\<lambda>r c. if odd c then max (?A ! r ! c) (?A ! r ! (c - 1)) else ?A ! r ! c)"
    by (simp only: spec_saturate_plain_def mk_mat_def)
  also have "\<dots> = mk_mat ?M (2 * ?M) (gis_entry rec)"
  proof (intro mk_mat_cong)
    fix r c assume rc: "r < ?M" "c < 2 * ?M"
    have c1: "c - 1 < 2 * ?M" using rc by simp
    have z: "grd_entry rec r 0 = 0" by (simp add: grd_entry_def)
    have "odd c \<Longrightarrow> \<not> 3 \<le> c \<Longrightarrow> c = 1" by (auto elim!: oddE)
    then show "(if odd c then max (?A ! r ! c) (?A ! r ! (c - 1)) else ?A ! r ! c)
          = gis_entry rec r c"
      using rc c1 z by (auto simp: gis_entry_def max.commute)
  qed
  finally show ?thesis .
qed

text \<open>
  Claim C5, as amended. For every well formed recursion index, the GIS allocation matrix is
  the matrix of the construction without the downward propagation step (the GRD matrix:
  unit plain columns and starred columns mirroring the parent's plain column) with every
  plain column \<open>2m+1\<close> saturated to the elementwise maximum of itself and its starred
  counterpart \<open>2m\<close>.
\<close>

theorem gis_is_saturated_grd:
  assumes "valid_recursion_index index"
  shows "get_allocation_matrix_acvis index
         = bindE (get_allocation_matrix_acvrd index)
             (\<lambda>A. Inr (spec_saturate_plain (length index + 1) A))"
  by (simp only: gis_closed[OF assms] grd_closed[OF assms] bindE_def sum.case
      spec_saturate_plain_closed)

text \<open>
  Claim C5, witness of the amended statement: the recursion index \<open>[0, 0]\<close>.
\<close>

theorem gis_is_saturated_grd_witness:
  "valid_recursion_index [0, 0]
   \<and> get_allocation_matrix_acvrd [0, 0]
       = Inr [[0, 1, 1, 0, 1, 0], [0, 0, 0, 1, 0, 0], [0, 0, 0, 0, 0, 1]]
   \<and> get_allocation_matrix_acvis [0, 0]
       = Inr [[0, 1, 1, 1, 1, 1], [0, 0, 0, 1, 0, 0], [0, 0, 0, 0, 0, 1]]"
proof -
  have v: "valid_recursion_index [0, 0]"
    by (simp add: valid_recursion_index_def)
  have g: "get_allocation_matrix_acvrd [0, 0]
       = Inr [[0, 1, 1, 0, 1, 0], [0, 0, 0, 1, 0, 0], [0, 0, 0, 0, 0, 1]]"
    by code_simp
  have a: "get_allocation_matrix_acvis [0, 0]
       = Inr [[0, 1, 1, 1, 1, 1], [0, 0, 0, 1, 0, 0], [0, 0, 0, 0, 0, 1]]"
    by code_simp
  show ?thesis
    using gis_is_saturated_grd[OF v] v g a by simp
qed

text \<open>
  Claim C5, as stated, fails: for the recursion index \<open>[0, 0]\<close> the full GMF construction
  followed by saturation has partition 1 active in column 5, and the GIS matrix has not.
  \<^verbatim>\<open>_get_allocation_matrix_acvis\<close> has no propagation loop.
\<close>

theorem gis_is_not_saturated_gmf:
  "get_allocation_matrix_gmf [0, 0]
     = Inr [[0, 1, 1, 1, 1, 1], [0, 0, 0, 1, 0, 1], [0, 0, 0, 0, 0, 1]]
   \<and> bindE (get_allocation_matrix_gmf [0, 0]) (\<lambda>A. Inr (spec_saturate_plain 3 A))
     = Inr [[0, 1, 1, 1, 1, 1], [0, 0, 0, 1, 0, 1], [0, 0, 0, 0, 0, 1]]
   \<and> get_allocation_matrix_acvis [0, 0]
     = Inr [[0, 1, 1, 1, 1, 1], [0, 0, 0, 1, 0, 0], [0, 0, 0, 0, 0, 1]]
   \<and> get_allocation_matrix_acvis [0, 0]
     \<noteq> bindE (get_allocation_matrix_gmf [0, 0]) (\<lambda>A. Inr (spec_saturate_plain 3 A))"
proof -
  have g: "get_allocation_matrix_gmf [0, 0]
     = Inr [[0, 1, 1, 1, 1, 1], [0, 0, 0, 1, 0, 1], [0, 0, 0, 0, 0, 1]]"
    by code_simp
  have s: "spec_saturate_plain 3 [[0, 1, 1, 1, 1, 1], [0, 0, 0, 1, 0, 1], [0, 0, 0, 0, 0, 1]]
       = [[0, 1, 1, 1, 1, 1], [0, 0, 0, 1, 0, 1], [0, 0, 0, 0, 0, 1]]"
    by code_simp
  have a: "get_allocation_matrix_acvis [0, 0]
     = Inr [[0, 1, 1, 1, 1, 1], [0, 0, 0, 1, 0, 0], [0, 0, 0, 0, 0, 1]]"
    by code_simp
  show ?thesis unfolding g a bindE_def sum.case s by simp
qed


section \<open>Construction of the estimator\<close>


lemma create_allocation_matrix_closed:
  assumes "valid_recursion_index rec"
  shows "create_allocation_matrix pol rec
         = Inr (mk_mat (length rec + 1) (2 * (length rec + 1)) (policy_entry pol rec))"
  by (cases pol)
     (simp_all only: create_allocation_matrix_def policy_entry_def policy.case
        gmf_closed[OF assms] gis_closed[OF assms] grd_closed[OF assms])

lemma valid_zero_index: "valid_recursion_index (replicate n 0)"
  by (simp add: valid_recursion_index_def list_all_length)

lemma built_estimator_mat:
  assumes "built_estimator est rec"
  shows "allocation_mat est
         = Some (mk_mat (nmodels est) (2 * nmodels est) (policy_entry (policy est) rec))"
proof -
  from assms have v: "valid_recursion_index rec" and n: "nmodels est = length rec + 1"
    and c: "create_allocation_matrix (policy est) rec = Inr (the (allocation_mat est))"
    and s: "allocation_mat est \<noteq> None"
    by (simp_all add: built_estimator_def)
  from c have "the (allocation_mat est)
       = mk_mat (length rec + 1) (2 * (length rec + 1)) (policy_entry (policy est) rec)"
    by (simp only: create_allocation_matrix_closed[OF v] sum.inject)
  then show ?thesis using s n by auto
qed

text \<open>
  Claim C10. Constructing an \<^verbatim>\<open>ACVEstimator\<close> subclass (GMF, GIS or GRD) with
  \<^verbatim>\<open>recursion_index=None\<close> and \<^verbatim>\<open>tree_depth=None\<close> succeeds, sets the recursion index to the
  all-zeros vector of length \<open>M - 1\<close> and the allocation matrix to the one the policy builds
  from that index.
\<close>

theorem acv_init_default_recursion_index:
  assumes "costs_arg \<noteq> []" and "cov_nrows mod length costs_arg = 0"
  shows "\<exists>est mat. acv_init pol costs_arg cov_nrows None None allow = Inr est
           \<and> recursion_index est = Some (replicate (length costs_arg - 1) 0)
           \<and> create_allocation_matrix pol (replicate (length costs_arg - 1) 0) = Inr mat
           \<and> allocation_mat est = Some mat"
proof -
  let ?z = "replicate (length costs_arg - 1) (0::int)"
  obtain mat where m: "create_allocation_matrix pol ?z = Inr mat"
    using create_allocation_matrix_closed[OF valid_zero_index] by blast
  show ?thesis
    using assms m
    by (simp add: acv_init_def set_recursion_index_def bindE_def Let_def)
qed

text \<open>
  Claim C10, witness: a GMF estimator of three models with costs \<open>1, 0.1, 0.01\<close>.
\<close>

theorem acv_init_default_recursion_index_witness:
  "[1, 1 / 10, 1 / 100] \<noteq> ([] :: real list) \<and> 3 mod length [1, 1 / 10, 1 / 100 :: real] = 0
   \<and> (\<exists>est. acv_init GMF [1, 1 / 10, 1 / 100] 3 None None False = Inr est
        \<and> recursion_index est = Some [0, 0]
        \<and> allocation_mat est
            = Some [[0, 1, 1, 1, 1, 1], [0, 0, 0, 1, 0, 1], [0, 0, 0, 0, 0, 1]])"
proof -
  have g: "create_allocation_matrix GMF [0, 0]
     = Inr [[0, 1, 1, 1, 1, 1], [0, 0, 0, 1, 0, 1], [0, 0, 0, 0, 0, 1]]"
    by code_simp
  have r: "replicate (length [1, 1 / 10, 1 / 100 :: real] - 1) (0::int) = [0, 0]"
    by (simp add: numeral_2_eq_2)
  have "\<exists>est mat. acv_init GMF [1, 1 / 10, 1 / 100] 3 None None False = Inr est
           \<and> recursion_index est = Some (replicate (length [1, 1 / 10, 1 / 100 :: real] - 1) 0)
           \<and> create_allocation_matrix GMF (replicate (length [1, 1 / 10, 1 / 100 :: real] - 1) 0) = Inr mat
           \<and> allocation_mat est = Some mat"
    by (rule acv_init_default_recursion_index) simp_all
  then show ?thesis unfolding r g by auto
qed


subsection \<open>The first two columns and the example estimator\<close>


lemma policy_entry_col0: "policy_entry pol rec r 0 = 0"
  by (cases pol) (simp_all add: policy_entry_def gmf_entry_def gis_entry_def grd_entry_def)

lemma policy_entry_col1: "policy_entry pol rec r (Suc 0) = unit_col 0 r"
  by (cases pol) (simp_all add: policy_entry_def gmf_entry_def gis_entry_def grd_entry_def)

lemma gmf3_built: "built_estimator gmf3 [0, 1]"
proof -
  have "create_allocation_matrix GMF [0, 1]
      = Inr [[0, 1, 1, 1, 1, 1], [0, 0, 0, 1, 1, 1], [0, 0, 0, 0, 0, 1]]"
    by code_simp
  then show ?thesis
    by (simp add: built_estimator_def gmf3_def valid_recursion_index_def)
qed

lemma gmf3_fields:
  "allocation_mat gmf3 = Some [[0, 1, 1, 1, 1, 1], [0, 0, 0, 1, 1, 1], [0, 0, 0, 0, 0, 1]]"
  "costs gmf3 = [1, 1 / 10, 1 / 100]"
  "nmodels gmf3 = 3"
  by (simp_all add: gmf3_def)

section \<open>Failures during the sweep\<close>


lemma crit_less_PosInf [simp]: "crit_less PosInf c = False"
  by (cases c) simp_all

lemma sweep_failure_step:
  assumes "set_recursion_index est (Some index) = Inr est1"
    and "single target_cost est1 = Inl (e, est2)" and "is_runtime_error e"
  shows "sweep single target_cost (index # rest) est best_crit best
         = (if allow_failures est2
            then sweep single target_cost rest (est2\<lparr>optimized_criteria := Some PosInf\<rparr>)
                   best_crit best
            else Inl e)"
  using assms by (simp add: bindE_def try_single_recursion_def)

lemma set_recursion_index_ok:
  assumes "valid_recursion_index index" "length index = nmodels est - 1"
  shows "\<exists>mat. set_recursion_index est (Some index)
           = Inr (est\<lparr>allocation_mat := Some mat, recursion_index := Some index\<rparr>)"
proof -
  obtain mat where "create_allocation_matrix (policy est) index = Inr mat"
    using create_allocation_matrix_closed[OF assms(1), of "policy est"] by blast
  then have "set_recursion_index est (Some index)
           = Inr (est\<lparr>allocation_mat := Some mat, recursion_index := Some index\<rparr>)"
    using assms(2) by (simp add: set_recursion_index_def bindE_def)
  then show ?thesis by blast
qed

lemma sweep_all_fail:
  assumes "\<And>e. \<exists>msg e'. single target_cost e = Inl (RuntimeError msg, e')
                    \<and> allow_failures e' = allow_failures e \<and> nmodels e' = nmodels e"
  shows "list_all (\<lambda>i. valid_recursion_index i \<and> length i = nmodels est - 1) indices \<Longrightarrow>
         allow_failures est \<Longrightarrow>
         \<exists>est'. sweep single target_cost indices est best_crit best = Inr (est', best_crit, best)"
proof (induction indices arbitrary: est)
  case Nil
  then show ?case by simp
next
  case (Cons i rest)
  then have v: "valid_recursion_index i" "length i = nmodels est - 1" by simp_all
  obtain mat where s: "set_recursion_index est (Some i)
       = Inr (est\<lparr>allocation_mat := Some mat, recursion_index := Some i\<rparr>)"
    using set_recursion_index_ok[OF v] by blast
  let ?est1 = "est\<lparr>allocation_mat := Some mat, recursion_index := Some i\<rparr>"
  obtain msg est2 where f: "single target_cost ?est1 = Inl (RuntimeError msg, est2)"
    and k: "allow_failures est2 = allow_failures ?est1" "nmodels est2 = nmodels ?est1"
    using assms[of ?est1] by blast
  let ?est3 = "est2\<lparr>optimized_criteria := Some PosInf\<rparr>"
  have "sweep single target_cost (i # rest) est best_crit best
      = sweep single target_cost rest ?est3 best_crit best"
    using sweep_failure_step[where single=single and target_cost=target_cost
        and e="RuntimeError msg", OF s f] k Cons.prems(2) by simp
  moreover have "\<exists>est'. sweep single target_cost rest ?est3 best_crit best
      = Inr (est', best_crit, best)"
    using Cons.prems k by (intro Cons.IH) simp_all
  ultimately show ?case by simp
qed

text \<open>
  Claim C6. In the sweep over the recursion indices, when the optimisation of an index
  raises a RuntimeError: with \<^verbatim>\<open>allow_failures\<close> set, the criterion of the estimator is set
  to \<open>+\<infinity>\<close> and the sweep goes on with the remaining indices, the best criterion and the
  best result unchanged; without it, the same error leaves the sweep and the whole
  allocation; and when every index fails with \<^verbatim>\<open>allow_failures\<close> set, the allocation raises
  the RuntimeError "No solutions were found".
\<close>

theorem sweep_handles_solver_failure:
  "(set_recursion_index est (Some index) = Inr est1
      \<and> single target_cost est1 = Inl (RuntimeError msg, est2) \<and> allow_failures est2
    \<longrightarrow> sweep single target_cost (index # rest) est best_crit best
        = sweep single target_cost rest (est2\<lparr>optimized_criteria := Some PosInf\<rparr>) best_crit best)
   \<and> (set_recursion_index est (Some index) = Inr est1
      \<and> single target_cost est1 = Inl (RuntimeError msg, est2) \<and> \<not> allow_failures est2
    \<longrightarrow> sweep single target_cost (index # rest) est best_crit best = Inl (RuntimeError msg)
        \<and> allocate_samples_for_all_recursion_indices single set_params (index # rest)
             target_cost est = Inl (RuntimeError msg))
   \<and> ((\<forall>e. \<exists>m e'. single target_cost e = Inl (RuntimeError m, e')
                  \<and> allow_failures e' = allow_failures e \<and> nmodels e' = nmodels e)
      \<and> list_all (\<lambda>i. valid_recursion_index i \<and> length i = nmodels est - 1) indices
      \<and> allow_failures est
    \<longrightarrow> allocate_samples_for_all_recursion_indices single set_params indices target_cost est
        = Inl (RuntimeError ''No solutions were found''))"
proof (intro conjI impI)
  assume a: "set_recursion_index est (Some index) = Inr est1
      \<and> single target_cost est1 = Inl (RuntimeError msg, est2) \<and> allow_failures est2"
  then show "sweep single target_cost (index # rest) est best_crit best
        = sweep single target_cost rest (est2\<lparr>optimized_criteria := Some PosInf\<rparr>) best_crit best"
    using sweep_failure_step[of est index est1 single target_cost "RuntimeError msg" est2]
    by simp
next
  assume a: "set_recursion_index est (Some index) = Inr est1
      \<and> single target_cost est1 = Inl (RuntimeError msg, est2) \<and> \<not> allow_failures est2"
  then show "sweep single target_cost (index # rest) est best_crit best = Inl (RuntimeError msg)"
    using sweep_failure_step[of est index est1 single target_cost "RuntimeError msg" est2]
    by simp
  with a show "allocate_samples_for_all_recursion_indices single set_params (index # rest)
             target_cost est = Inl (RuntimeError msg)"
    using sweep_failure_step[of est index est1 single target_cost "RuntimeError msg" est2 rest PosInf None]
    by (simp add: allocate_samples_for_all_recursion_indices_def bindE_def)
next
  assume a: "(\<forall>e. \<exists>m e'. single target_cost e = Inl (RuntimeError m, e')
                  \<and> allow_failures e' = allow_failures e \<and> nmodels e' = nmodels e)
      \<and> list_all (\<lambda>i. valid_recursion_index i \<and> length i = nmodels est - 1) indices
      \<and> allow_failures est"
  then obtain est' where "sweep single target_cost indices est PosInf None = Inr (est', PosInf, None)"
    using sweep_all_fail[of single target_cost est indices PosInf None] by blast
  then show "allocate_samples_for_all_recursion_indices single set_params indices target_cost est
        = Inl (RuntimeError ''No solutions were found'')"
    by (simp add: allocate_samples_for_all_recursion_indices_def bindE_def)
qed



lemma failing_single_fails:
  "\<forall>e. \<exists>m e'. failing_single t e = Inl (RuntimeError m, e')
                  \<and> allow_failures e' = allow_failures e \<and> nmodels e' = nmodels e"
  by (simp add: failing_single_def)

text \<open>
  Claim C6, witness: a solver that always fails, on the indices \<open>[0, 0]\<close> and \<open>[0, 1]\<close> of
  the three-model GMF estimator, with and without \<^verbatim>\<open>allow_failures\<close>.
\<close>

theorem sweep_handles_solver_failure_witness:
  "(\<exists>est1. set_recursion_index (gmf3\<lparr>allow_failures := True\<rparr>) (Some [0, 0]) = Inr est1
      \<and> sweep failing_single 100 [[0, 0], [0, 1]] (gmf3\<lparr>allow_failures := True\<rparr>) PosInf None
          = sweep failing_single 100 [[0, 1]] (est1\<lparr>optimized_criteria := Some PosInf\<rparr>)
              PosInf None)
   \<and> allocate_samples_for_all_recursion_indices failing_single (\<lambda>r t e. Inr e)
        [[0, 0], [0, 1]] 100 gmf3 = Inl (RuntimeError ''optimizer failed'')
   \<and> allocate_samples_for_all_recursion_indices failing_single (\<lambda>r t e. Inr e)
        [[0, 0], [0, 1]] 100 (gmf3\<lparr>allow_failures := True\<rparr>)
      = Inl (RuntimeError ''No solutions were found'')"
proof -
  let ?A = "gmf3\<lparr>allow_failures := True\<rparr>"
  have v: "valid_recursion_index [0, 0]" "valid_recursion_index [0, 1]"
    by (simp_all add: valid_recursion_index_def)
  have n: "length [0, 0 :: int] = nmodels ?A - 1" "length [0, 0 :: int] = nmodels gmf3 - 1"
    "length [0, 1 :: int] = nmodels ?A - 1"
    by (simp_all add: gmf3_def)
  obtain mA where sA: "set_recursion_index ?A (Some [0, 0])
       = Inr (?A\<lparr>allocation_mat := Some mA, recursion_index := Some [0, 0]\<rparr>)"
    using set_recursion_index_ok[OF v(1) n(1)] by blast
  obtain mB where sB: "set_recursion_index gmf3 (Some [0, 0])
       = Inr (gmf3\<lparr>allocation_mat := Some mB, recursion_index := Some [0, 0]\<rparr>)"
    using set_recursion_index_ok[OF v(1) n(2)] by blast
  let ?A1 = "?A\<lparr>allocation_mat := Some mA, recursion_index := Some [0, 0]\<rparr>"
  let ?B1 = "gmf3\<lparr>allocation_mat := Some mB, recursion_index := Some [0, 0]\<rparr>"
  have fA: "failing_single 100 ?A1 = Inl (RuntimeError ''optimizer failed'', ?A1)"
    and fB: "failing_single 100 ?B1 = Inl (RuntimeError ''optimizer failed'', ?B1)"
    by (simp_all add: failing_single_def)
  have aA: "allow_failures ?A1" and aB: "\<not> allow_failures ?B1"
    by (simp_all add: gmf3_def)
  have l: "list_all (\<lambda>i. valid_recursion_index i \<and> length i = nmodels ?A - 1) [[0, 0], [0, 1]]"
    using v n by simp
  have aA0: "allow_failures ?A" by simp
  note t1 = sweep_handles_solver_failure[where est="?A" and index="[0, 0]" and ?est1.0="?A1"
      and single=failing_single and target_cost=100 and msg="''optimizer failed''"
      and ?est2.0="?A1" and rest="[[0, 1]]" and best_crit=PosInf and best=None
      and set_params="\<lambda>r t e. Inr e" and indices="[[0, 0], [0, 1]]"]
  note t2 = sweep_handles_solver_failure[where est=gmf3 and index="[0, 0]" and ?est1.0="?B1"
      and single=failing_single and target_cost=100 and msg="''optimizer failed''"
      and ?est2.0="?B1" and rest="[[0, 1]]" and best_crit=PosInf and best=None
      and set_params="\<lambda>r t e. Inr e" and indices="[[0, 0], [0, 1]]"]
  have w1: "sweep failing_single 100 [[0, 0], [0, 1]] ?A PosInf None
          = sweep failing_single 100 [[0, 1]] (?A1\<lparr>optimized_criteria := Some PosInf\<rparr>)
              PosInf None"
    using t1 sA fA aA by blast
  have w3: "allocate_samples_for_all_recursion_indices failing_single (\<lambda>r t e. Inr e)
        [[0, 0], [0, 1]] 100 ?A = Inl (RuntimeError ''No solutions were found'')"
    using t1 failing_single_fails[of 100] l aA0 by blast
  have w2: "allocate_samples_for_all_recursion_indices failing_single (\<lambda>r t e. Inr e)
        [[0, 0], [0, 1]] 100 gmf3 = Inl (RuntimeError ''optimizer failed'')"
    using t2 sB fB aB by blast
  show ?thesis using sA w1 w2 w3 by blast
qed


section \<open>Recursion indices in model selection\<close>















section \<open>Separating and combining values\<close>


lemma cumsum_from_length [simp]: "length (cumsum_from acc xs) = length xs"
  by (induction xs arbitrary: acc) simp_all

lemma cumsum_from_nth:
  "k < length xs \<Longrightarrow> cumsum_from acc xs ! k = acc + sum_list (take (Suc k) xs)"
proof (induction xs arbitrary: acc k)
  case Nil
  then show ?case by simp
next
  case (Cons x xs)
  then show ?case by (cases k) (simp_all add: add.assoc)
qed

lemma slice_upt: "b \<le> S \<Longrightarrow> slice [0..<S] a b = [a..<b]"
  by (cases "a \<le> b") (simp_all add: slice_def take_upt)

lemma split_lower:
  assumes "j < length nps"
  shows "(0 # cumsum_from 0 (butlast nps)) ! j = sum_list (take j nps)"
proof (cases j)
  case 0
  then show ?thesis by simp
next
  case (Suc k)
  then have k: "k < length (butlast nps)" using assms by simp
  have "take (Suc k) (butlast nps) = take (Suc k) nps"
    using assms Suc by (intro take_butlast) simp
  then show ?thesis using Suc k by (simp add: cumsum_from_nth)
qed

lemma split_upper:
  assumes "j < length nps"
  shows "(cumsum_from 0 (butlast nps) @ [sum_list nps]) ! j = sum_list (take (Suc j) nps)"
proof (cases "j < length nps - 1")
  case True
  then have "take (Suc j) (butlast nps) = take (Suc j) nps"
    by (intro take_butlast) simp
  then show ?thesis using True by (simp add: nth_append cumsum_from_nth)
next
  case False
  then have "j = length nps - 1" using assms by simp
  then show ?thesis using assms by (simp add: nth_append)
qed

lemma sum_take_le: "sum_list (take k (nps :: nat list)) \<le> sum_list nps"
proof -
  have "sum_list nps = sum_list (take k nps) + sum_list (drop k nps)"
    by (metis append_take_drop_id sum_list_append)
  then show ?thesis by simp
qed

lemma partition_indices_nth:
  assumes "j < length nps"
  shows "get_partition_indices nps ! j
         = [sum_list (take j nps)..<sum_list (take j nps) + nps ! j]"
proof -
  let ?pts = "cumsum_from 0 (butlast nps)"
  have l: "length (zip (0 # ?pts) (?pts @ [length [0..<sum_list nps]])) = length nps"
    using assms by simp
  have "get_partition_indices nps ! j
      = slice [0..<sum_list nps] ((0 # ?pts) ! j) ((?pts @ [sum_list nps]) ! j)"
    unfolding get_partition_indices_def np_split_def using assms l
    by (simp del: upt_Suc)
  also have "\<dots> = slice [0..<sum_list nps] (sum_list (take j nps)) (sum_list (take (Suc j) nps))"
    by (simp only: split_lower[OF assms] split_upper[OF assms])
  also have "\<dots> = [sum_list (take j nps)..<sum_list (take (Suc j) nps)]"
    by (rule slice_upt) (rule sum_take_le)
  finally show ?thesis using assms by (simp add: take_Suc_conv_app_nth)
qed

lemma partition_indices_length:
  "j < length nps \<Longrightarrow> length (get_partition_indices nps ! j) = nps ! j"
  by (simp add: partition_indices_nth)

lemma partition_indices_0: "nps \<noteq> [] \<Longrightarrow> get_partition_indices nps ! 0 = [0..<nps ! 0]"
  using partition_indices_nth[of 0 nps] by simp



lemma offs_0 [simp]: "offs A nps 0 = 0"
  by (simp add: offs_def)

lemma offs_Suc: "offs A nps (Suc j) = offs A nps j + (if A j then nps ! j else 0)"
  by (simp add: offs_def)

lemma offs_mono: "j \<le> k \<Longrightarrow> offs A nps j \<le> offs A nps k"
proof (induction k)
  case 0
  then show ?case by simp
next
  case (Suc k)
  then show ?case by (cases "j = Suc k") (auto simp: offs_Suc)
qed

lemma offs_seg_bound: "A j \<Longrightarrow> j < M \<Longrightarrow> offs A nps j + nps ! j \<le> offs A nps M"
  using offs_mono[of "Suc j" M A nps] by (simp add: offs_Suc)

lemma filter_upt_step:
  "a < M \<Longrightarrow> filter A [a..<M] = (if A a then [a] else []) @ filter A [Suc a..<M]"
  by (simp add: upt_conv_Cons)

lemma assign_subsets_plain_step:
  "assign_subsets choice False pidx (idx # rest) lb si rpi g
   = assign_subsets choice False pidx rest (lb + length (pidx ! idx))
       (si[idx := Some [lb..<lb + length (pidx ! idx)]]) rpi g"
  by (simp add: Let_def)

lemma assign_subsets_plain:
  assumes "\<forall>j<M. length (pidx ! j) = nps ! j"
  shows "a \<le> M \<Longrightarrow> length si = M \<Longrightarrow>
    assign_subsets choice False pidx (filter A [a..<M]) (offs A nps a) si rpi g
     = Inr (map (\<lambda>j. if a \<le> j \<and> A j then Some (seg False perm A nps j) else si ! j) [0..<M],
            rpi, g)"
proof (induction "M - a" arbitrary: a si)
  case 0
  then have "a = M" by simp
  then have e: "filter A [a..<M] = []" by simp
  have "map (\<lambda>j. if a \<le> j \<and> A j then Some (seg False perm A nps j) else si ! j) [0..<M]
      = map (\<lambda>j. si ! j) [0..<M]"
    using \<open>a = M\<close> by (intro map_cong) auto
  also have "\<dots> = si" using 0(3) map_nth[of si] by simp
  finally show ?case unfolding e by simp
next
  case (Suc n)
  then have aM: "a < M" and n: "n = M - Suc a" by simp_all
  show ?case
  proof (cases "A a")
    case True
    let ?si1 = "si[a := Some [offs A nps a..<offs A nps a + nps ! a]]"
    have l: "length (pidx ! a) = nps ! a" using assms aM by simp
    have o: "offs A nps (Suc a) = offs A nps a + nps ! a" using True by (simp add: offs_Suc)
    have "assign_subsets choice False pidx (filter A [a..<M]) (offs A nps a) si rpi g
        = assign_subsets choice False pidx (filter A [Suc a..<M]) (offs A nps (Suc a)) ?si1 rpi g"
      unfolding filter_upt_step[OF aM] using True
      by (simp only: if_True append_Cons append_Nil assign_subsets_plain_step l o)
    also have "\<dots> = Inr (map (\<lambda>j. if Suc a \<le> j \<and> A j then Some (seg False perm A nps j)
                                  else ?si1 ! j) [0..<M], rpi, g)"
      using Suc.hyps(1)[OF n, of ?si1] aM Suc.prems by simp
    also have "map (\<lambda>j. if Suc a \<le> j \<and> A j then Some (seg False perm A nps j)
                                  else ?si1 ! j) [0..<M]
        = map (\<lambda>j. if a \<le> j \<and> A j then Some (seg False perm A nps j) else si ! j) [0..<M]"
    proof (intro map_cong refl)
      fix j assume "j \<in> set [0..<M]"
      then have jM: "j < M" by simp
      show "(if Suc a \<le> j \<and> A j then Some (seg False perm A nps j) else ?si1 ! j)
          = (if a \<le> j \<and> A j then Some (seg False perm A nps j) else si ! j)"
      proof (cases "j = a")
        case True
        then show ?thesis using \<open>A a\<close> aM Suc.prems by (simp add: seg_def)
      next
        case False
        then show ?thesis by auto
      qed
    qed
    finally show ?thesis .
  next
    case False
    have o: "offs A nps (Suc a) = offs A nps a" using False by (simp add: offs_Suc)
    have "assign_subsets choice False pidx (filter A [a..<M]) (offs A nps a) si rpi g
        = assign_subsets choice False pidx (filter A [Suc a..<M]) (offs A nps (Suc a)) si rpi g"
      unfolding filter_upt_step[OF aM] using False by (simp add: o)
    also have "\<dots> = Inr (map (\<lambda>j. if Suc a \<le> j \<and> A j then Some (seg False perm A nps j)
                                  else si ! j) [0..<M], rpi, g)"
      using Suc.hyps(1)[OF n, of si] aM Suc.prems by simp
    also have "map (\<lambda>j. if Suc a \<le> j \<and> A j then Some (seg False perm A nps j)
                                  else si ! j) [0..<M]
        = map (\<lambda>j. if a \<le> j \<and> A j then Some (seg False perm A nps j) else si ! j) [0..<M]"
    proof (intro map_cong refl)
      fix j assume "j \<in> set [0..<M]"
      show "(if Suc a \<le> j \<and> A j then Some (seg False perm A nps j) else si ! j)
          = (if a \<le> j \<and> A j then Some (seg False perm A nps j) else si ! j)"
        using False by (cases "j = a") auto
    qed
    finally show ?thesis .
  qed
qed

lemma np_where1_col:
  "np_where1 (get_col mat c) = filter (\<lambda>j. mat ! j ! c = 1) [0..<length mat]"
  by (auto simp: np_where1_def get_col_def intro: filter_cong)

lemma np_where1_starred: "np_where1 (get_col mat (2 * ii)) = filter (starred_active mat ii) [0..<length mat]"
  by (simp add: np_where1_col starred_active_def[abs_def])

lemma np_where1_plain: "np_where1 (get_col mat (2 * ii + 1)) = filter (plain_active mat ii) [0..<length mat]"
  by (simp add: np_where1_col plain_active_def[abs_def])

lemma active_partitions_filter:
  "active_partitions mat ii = filter (spec_active mat ii) [0..<length mat]"
  by (simp add: active_partitions_def spec_active_def[abs_def])

lemma subsets_from_si:
  assumes "\<And>j. F j \<Longrightarrow> A j"
  shows "map (subset_at (map (\<lambda>j. if 0 \<le> j \<and> A j then Some (sg j) else None) [0..<M]))
           (filter F [0..<M])
         = map sg (filter F [0..<M])"
  using assms by (intro map_cong refl) (simp add: subset_at_def)



lemma acv_subsets_loop_plain_step:
  assumes "\<forall>j<M. length (pidx ! j) = nps ! j" "length mat = M"
    and "filter (starred_active mat a) [0..<M] \<noteq> []"
    and "filter (plain_active mat a) [0..<M] \<noteq> []"
  shows "acv_subsets_loop choice False mat M pidx (a # rest) acc rpi g
         = acv_subsets_loop choice False mat M pidx rest
             (acc @ acv_subsets_of False perm mat nps a) rpi g"
proof -
  let ?A = "spec_active mat a"
  let ?sg = "seg False perm ?A nps"
  let ?si = "map (\<lambda>j. if 0 \<le> j \<and> ?A j then Some (?sg j) else None) [0..<M]"
  have "assign_subsets choice False pidx (filter ?A [0..<M]) (offs ?A nps 0)
           (replicate M None) rpi g
        = Inr (map (\<lambda>j. if 0 \<le> j \<and> ?A j then Some (?sg j) else replicate M None ! j) [0..<M],
               rpi, g)"
    by (rule assign_subsets_plain[OF assms(1)]) simp_all
  also have "map (\<lambda>j. if 0 \<le> j \<and> ?A j then Some (?sg j) else replicate M None ! j) [0..<M] = ?si"
    by (intro map_cong refl) simp
  finally have as: "assign_subsets choice False pidx (active_partitions mat a) 0
           (replicate M None) rpi g = Inr (?si, rpi, g)"
    by (simp add: active_partitions_filter assms(2))
  have m1: "map (subset_at ?si) (filter (starred_active mat a) [0..<M])
      = map ?sg (filter (starred_active mat a) [0..<M])"
    by (rule subsets_from_si) (simp add: spec_active_def starred_active_def)
  have m2: "map (subset_at ?si) (filter (plain_active mat a) [0..<M])
      = map ?sg (filter (plain_active mat a) [0..<M])"
    by (rule subsets_from_si) (simp add: spec_active_def plain_active_def)
  have s1: "np_stack (map (subset_at ?si) (np_where1 (get_col mat (2 * a))))
      = Inr (subset_indices_of False perm mat nps a (starred_active mat a))"
    unfolding np_where1_starred assms(2) m1
    using assms(3) by (simp add: np_stack_def subset_indices_of_def assms(2))
  have s2: "np_stack (map (subset_at ?si) (np_where1 (get_col mat (2 * a + 1))))
      = Inr (subset_indices_of False perm mat nps a (plain_active mat a))"
    unfolding np_where1_plain assms(2) m2
    using assms(4) by (simp add: np_stack_def subset_indices_of_def assms(2))
  show ?thesis
    by (simp only: acv_subsets_loop.simps as bindE_def sum.case prod.case s1 s2
        acv_subsets_of_def)
qed

lemma acv_subsets_loop_plain:
  assumes "\<forall>j<M. length (pidx ! j) = nps ! j" "length mat = M"
    and "\<forall>ii. 1 \<le> ii \<and> ii < M \<longrightarrow> filter (starred_active mat ii) [0..<M] \<noteq> []
                                    \<and> filter (plain_active mat ii) [0..<M] \<noteq> []"
  shows "1 \<le> a \<Longrightarrow> acv_subsets_loop choice False mat M pidx [a..<M] acc rpi g
         = Inr (acc @ concat (map (acv_subsets_of False perm mat nps) [a..<M]), rpi, g)"
proof (induction "M - a" arbitrary: a acc)
  case 0
  then have e: "[a..<M] = []" by simp
  show ?case unfolding e by simp
next
  case (Suc n)
  then have aM: "a < M" and n: "n = M - Suc a" by simp_all
  have u: "[a..<M] = a # [Suc a..<M]" using aM by (simp add: upt_conv_Cons)
  have f: "filter (starred_active mat a) [0..<M] \<noteq> []" "filter (plain_active mat a) [0..<M] \<noteq> []"
    using assms(3) aM Suc.prems by blast+
  show ?case
    unfolding u acv_subsets_loop_plain_step[OF assms(1,2) f, of choice _ acc rpi g perm]
    using Suc.hyps(1)[OF n, of "acc @ acv_subsets_of False perm mat nps a"] by simp
qed

lemma take_rows_ok:
  "\<forall>i\<in>set idx. i < length xs \<Longrightarrow> take_rows xs idx = Inr (map (\<lambda>i. xs ! i) idx)"
  by (simp add: take_rows_def list_all_iff)

lemma gather_pairs:
  assumes "\<forall>ii. a0 \<le> ii \<and> ii < b \<longrightarrow> (\<forall>i\<in>set (f ii) \<union> set (h ii). i < length (vs ! ii))"
  shows "a0 \<le> a \<Longrightarrow> gather_acv_values vs (concat (map (\<lambda>ii. [f ii, h ii]) [a..<b])) (2 * a)
         = Inr (concat (map (\<lambda>ii. [map (\<lambda>i. vs ! ii ! i) (f ii), map (\<lambda>i. vs ! ii ! i) (h ii)])
                  [a..<b]))"
proof (induction "b - a" arbitrary: a)
  case 0
  then have e: "[a..<b] = []" by simp
  show ?case unfolding e by simp
next
  case (Suc n)
  then have ab: "a < b" and n: "n = b - Suc a" by simp_all
  have u: "[a..<b] = a # [Suc a..<b]" using ab by (simp add: upt_conv_Cons)
  have r: "\<forall>i\<in>set (f a). i < length (vs ! a)" "\<forall>i\<in>set (h a). i < length (vs ! a)"
    using assms ab Suc.prems by auto
  have ih: "gather_acv_values vs (concat (map (\<lambda>ii. [f ii, h ii]) [Suc a..<b])) (Suc (Suc (2 * a)))
         = Inr (concat (map (\<lambda>ii. [map (\<lambda>i. vs ! ii ! i) (f ii), map (\<lambda>i. vs ! ii ! i) (h ii)])
                  [Suc a..<b]))"
    using Suc.hyps(1)[OF n] Suc.prems by simp
  show ?case
    unfolding u
    by (simp add: take_rows_ok[OF r(1)] take_rows_ok[OF r(2)] bindE_def ih)
qed

lemma pair_up_concat:
  "pair_up (concat (map (\<lambda>ii. [f ii, h ii]) xs)) = map (\<lambda>ii. [f ii, h ii]) xs"
  by (induction xs) simp_all

lemma map_nth_upt_slice:
  "y \<le> length xs \<Longrightarrow> map (\<lambda>i. xs ! i) [x..<y] = slice xs x y"
proof -
  assume y: "y \<le> length xs"
  show ?thesis
  proof (rule nth_equalityI)
    show "length (map (\<lambda>i. xs ! i) [x..<y]) = length (slice xs x y)"
      using y by (simp add: slice_def)
  next
    fix i assume "i < length (map (\<lambda>i. xs ! i) [x..<y])"
    then show "map (\<lambda>i. xs ! i) [x..<y] ! i = slice xs x y ! i"
      using y by (simp add: slice_def)
  qed
qed


lemma chunk_length:
  "A j \<Longrightarrow> j < M \<Longrightarrow> length vals = offs A nps M \<Longrightarrow> length (chunk vals A nps j) = nps ! j"
  using offs_seg_bound[of A j M nps] by (simp add: chunk_def slice_def)

lemma map_nth_seg:
  "A j \<Longrightarrow> j < M \<Longrightarrow> length vals = offs A nps M \<Longrightarrow>
   map (\<lambda>i. vals ! i) (seg False perm A nps j) = chunk vals A nps j"
  using offs_seg_bound[of A j M nps] by (simp add: seg_def chunk_def map_nth_upt_slice)

lemma acv_values_chunks:
  assumes "\<And>j. F j \<Longrightarrow> spec_active mat ii j" "length vals = offs (spec_active mat ii) nps (length mat)"
  shows "map (\<lambda>i. vals ! i) (subset_indices_of False perm mat nps ii F)
         = concat (map (chunk vals (spec_active mat ii) nps) (filter F [0..<length mat]))"
proof -
  have "map (map (\<lambda>i. vals ! i)) (map (seg False perm (spec_active mat ii) nps) (filter F [0..<length mat]))
      = map (chunk vals (spec_active mat ii) nps) (filter F [0..<length mat])"
    unfolding map_map
    by (intro map_cong refl) (simp add: map_nth_seg[OF assms(1) _ assms(2)])
  then show ?thesis
    by (simp only: subset_indices_of_def map_concat)
qed

lemma slice_middle: "slice (xs @ c @ r) (length xs) (length xs + length c) = c"
  by (simp add: slice_def)

lemma slice_concat_chunk:
  assumes "F j" "j < M" "\<And>i. F i \<Longrightarrow> i < M \<Longrightarrow> length (c i) = nps ! i"
  shows "slice (concat (map c (filter F [0..<M]))) (offs F nps j) (offs F nps j + nps ! j) = c j"
proof -
  have u: "[0..<M] = [0..<j] @ j # [Suc j..<M]"
    using assms(2) by (metis le0 upt_add_eq_append upt_conv_Cons le_add_diff_inverse less_imp_le add.left_neutral)
  have "map (length \<circ> c) (filter F [0..<j]) = map (\<lambda>i. nps ! i) (filter F [0..<j])"
    using assms(2,3) by (intro map_cong refl) auto
  then have "sum_list (map (length \<circ> c) (filter F [0..<j])) = offs F nps j"
    unfolding offs_def by (rule arg_cong[where f=sum_list])
  then have l: "length (concat (map c (filter F [0..<j]))) = offs F nps j"
    by (simp only: length_concat map_map)
  have "concat (map c (filter F [0..<M]))
      = concat (map c (filter F [0..<j])) @ c j @ concat (map c (filter F [Suc j..<M]))"
    by (subst u) (simp add: assms(1))
  then show ?thesis
    using slice_middle[of "concat (map c (filter F [0..<j]))" "c j"] l assms by simp
qed

lemma concat_chunks_take:
  "concat (map (chunk vals A nps) (filter A [0..<k])) = take (offs A nps k) vals"
proof (induction k)
  case 0
  then show ?case by simp
next
  case (Suc k)
  then show ?case
    by (simp add: offs_Suc chunk_def slice_def take_add)
qed



lemma combine_inner_step:
  "combine_inner mat nps [a0, a1] ii (jj # rest) lb lb2 acc
   = (if starred_active mat ii jj
      then combine_inner mat nps [a0, a1] ii rest (lb + nps ! jj)
             (if plain_active mat ii jj then lb2 + nps ! jj else lb2)
             (acc @ [slice a0 lb (lb + nps ! jj)])
      else if plain_active mat ii jj
      then combine_inner mat nps [a0, a1] ii rest lb (lb2 + nps ! jj)
             (acc @ [slice a1 lb2 (lb2 + nps ! jj)])
      else combine_inner mat nps [a0, a1] ii rest lb lb2 acc)"
  by (simp add: starred_active_def plain_active_def nth_err_def bindE_def Let_def)

lemma spec_active_iff: "spec_active mat ii j = (starred_active mat ii j \<or> plain_active mat ii j)"
  by (simp add: spec_active_def starred_active_def plain_active_def)

lemma combine_inner_chunks:
  fixes vals :: "'a list"
  assumes len: "length vals = offs (spec_active mat ii) nps M"
    and a0: "a0 = concat (map (chunk vals (spec_active mat ii) nps)
                            (filter (starred_active mat ii) [0..<M]))"
    and a1: "a1 = concat (map (chunk vals (spec_active mat ii) nps)
                            (filter (plain_active mat ii) [0..<M]))"
  shows "a \<le> M \<Longrightarrow>
    combine_inner mat nps [a0, a1] ii [a..<M]
      (offs (starred_active mat ii) nps a) (offs (plain_active mat ii) nps a) acc
    = Inr (acc @ map (chunk vals (spec_active mat ii) nps) (filter (spec_active mat ii) [a..<M]))"
proof (induction "M - a" arbitrary: a acc)
  case 0
  then have e: "[a..<M] = []" by simp
  show ?case unfolding e by simp
next
  case (Suc n)
  let ?S = "starred_active mat ii" and ?P = "plain_active mat ii" and ?A = "spec_active mat ii"
  let ?c = "chunk vals ?A nps"
  from Suc have aM: "a < M" and n: "n = M - Suc a" by simp_all
  have u: "[a..<M] = a # [Suc a..<M]" using aM by (simp add: upt_conv_Cons)
  have cl: "\<And>i. ?A i \<Longrightarrow> i < M \<Longrightarrow> length (?c i) = nps ! i"
    using chunk_length[OF _ _ len] by blast
  have ih: "\<And>acc. combine_inner mat nps [a0, a1] ii [Suc a..<M]
      (offs ?S nps (Suc a)) (offs ?P nps (Suc a)) acc
    = Inr (acc @ map ?c (filter ?A [Suc a..<M]))"
    using Suc.hyps(1)[OF n] aM by simp
  show ?case
  proof (cases "?S a")
    case True
    have sl: "slice a0 (offs ?S nps a) (offs ?S nps a + nps ! a) = ?c a"
      unfolding a0
      by (rule slice_concat_chunk[where F="?S" and j=a and M=M and c="?c" and nps=nps])
         (simp_all add: True aM cl spec_active_iff)
    have o1: "offs ?S nps (Suc a) = offs ?S nps a + nps ! a" using True by (simp add: offs_Suc)
    have o2: "offs ?P nps (Suc a) = (if ?P a then offs ?P nps a + nps ! a else offs ?P nps a)"
      by (simp add: offs_Suc)
    have A: "?A a" using True by (simp add: spec_active_iff)
    have "combine_inner mat nps [a0, a1] ii (a # [Suc a..<M]) (offs ?S nps a) (offs ?P nps a) acc
        = combine_inner mat nps [a0, a1] ii [Suc a..<M] (offs ?S nps (Suc a))
            (offs ?P nps (Suc a)) (acc @ [?c a])"
      unfolding combine_inner_step o1 o2 using True by (simp only: if_True sl)
    then show ?thesis
      unfolding u ih using A by simp
  next
    case False
    note nS = False
    show ?thesis
    proof (cases "?P a")
      case True
      have sl: "slice a1 (offs ?P nps a) (offs ?P nps a + nps ! a) = ?c a"
        unfolding a1
        by (rule slice_concat_chunk[where F="?P" and j=a and M=M and c="?c" and nps=nps])
           (simp_all add: True aM cl spec_active_iff)
      have o1: "offs ?S nps (Suc a) = offs ?S nps a" using nS by (simp add: offs_Suc)
      have o2: "offs ?P nps (Suc a) = offs ?P nps a + nps ! a" using True by (simp add: offs_Suc)
      have A: "?A a" using True by (simp add: spec_active_iff)
      have "combine_inner mat nps [a0, a1] ii (a # [Suc a..<M]) (offs ?S nps a) (offs ?P nps a) acc
          = combine_inner mat nps [a0, a1] ii [Suc a..<M] (offs ?S nps (Suc a))
              (offs ?P nps (Suc a)) (acc @ [?c a])"
        unfolding combine_inner_step o1 o2 using nS True by (simp only: if_True if_False sl)
      then show ?thesis
        unfolding u ih using A by simp
    next
      case False
      have o1: "offs ?S nps (Suc a) = offs ?S nps a" using nS by (simp add: offs_Suc)
      have o2: "offs ?P nps (Suc a) = offs ?P nps a" using False by (simp add: offs_Suc)
      have A: "\<not> ?A a" using nS False by (simp add: spec_active_iff)
      have "combine_inner mat nps [a0, a1] ii (a # [Suc a..<M]) (offs ?S nps a) (offs ?P nps a) acc
          = combine_inner mat nps [a0, a1] ii [Suc a..<M] (offs ?S nps (Suc a))
              (offs ?P nps (Suc a)) acc"
        unfolding combine_inner_step o1 o2 using nS False by (simp only: if_False)
      then show ?thesis
        unfolding u ih using A by simp
    qed
  qed
qed

lemma combine_one_model:
  fixes vals :: "'a list"
  assumes len: "length vals = offs (spec_active mat ii) nps (length mat)"
    and ne: "filter (spec_active mat ii) [0..<length mat] \<noteq> []"
  shows "bindE (combine_inner mat nps
            [map (\<lambda>i. vals ! i) (subset_indices_of False perm mat nps ii (starred_active mat ii)),
             map (\<lambda>i. vals ! i) (subset_indices_of False perm mat nps ii (plain_active mat ii))]
            ii [0..<length mat] 0 0 []) np_stack
         = Inr vals"
proof -
  let ?A = "spec_active mat ii"
  have a0: "map (\<lambda>i. vals ! i) (subset_indices_of False perm mat nps ii (starred_active mat ii))
      = concat (map (chunk vals ?A nps) (filter (starred_active mat ii) [0..<length mat]))"
    by (rule acv_values_chunks[OF _ len]) (simp add: spec_active_iff)
  have a1: "map (\<lambda>i. vals ! i) (subset_indices_of False perm mat nps ii (plain_active mat ii))
      = concat (map (chunk vals ?A nps) (filter (plain_active mat ii) [0..<length mat]))"
    by (rule acv_values_chunks[OF _ len]) (simp add: spec_active_iff)
  have "combine_inner mat nps
            [map (\<lambda>i. vals ! i) (subset_indices_of False perm mat nps ii (starred_active mat ii)),
             map (\<lambda>i. vals ! i) (subset_indices_of False perm mat nps ii (plain_active mat ii))]
            ii [0..<length mat] (offs (starred_active mat ii) nps 0)
            (offs (plain_active mat ii) nps 0) []
        = Inr ([] @ map (chunk vals ?A nps) (filter ?A [0..<length mat]))"
    by (rule combine_inner_chunks[OF len a0 a1]) simp
  moreover have "concat (map (chunk vals ?A nps) (filter ?A [0..<length mat])) = vals"
    using concat_chunks_take[of vals ?A nps "length mat"] len by simp
  ultimately show ?thesis
    using ne by (simp add: bindE_def np_stack_def)
qed

lemma combine_models_values:
  fixes vs :: "'a list list"
  assumes "\<forall>ii. 1 \<le> ii \<and> ii < length mat \<longrightarrow>
             length (vs ! ii) = offs (spec_active mat ii) nps (length mat)
             \<and> filter (spec_active mat ii) [0..<length mat] \<noteq> []
             \<and> ii < length pacv
             \<and> pacv ! ii
                = [map (\<lambda>i. vs ! ii ! i)
                     (subset_indices_of False perm mat nps ii (starred_active mat ii)),
                   map (\<lambda>i. vs ! ii ! i)
                     (subset_indices_of False perm mat nps ii (plain_active mat ii))]"
  shows "1 \<le> a \<Longrightarrow> combine_models mat nps pacv (length mat) [a..<length mat]
         = Inr (map (\<lambda>ii. vs ! ii) [a..<length mat])"
proof (induction "length mat - a" arbitrary: a)
  case 0
  then have e: "[a..<length mat] = []" by simp
  show ?case unfolding e by simp
next
  case (Suc n)
  then have aM: "a < length mat" and n: "n = length mat - Suc a" by simp_all
  have u: "[a..<length mat] = a # [Suc a..<length mat]" using aM by (simp add: upt_conv_Cons)
  from assms aM Suc.prems
  have len: "length (vs ! a) = offs (spec_active mat a) nps (length mat)"
    and ne: "filter (spec_active mat a) [0..<length mat] \<noteq> []"
    and al: "a < length pacv"
    and pa: "pacv ! a
                = [map (\<lambda>i. vs ! a ! i)
                     (subset_indices_of False perm mat nps a (starred_active mat a)),
                   map (\<lambda>i. vs ! a ! i)
                     (subset_indices_of False perm mat nps a (plain_active mat a))]"
    by blast+
  have one: "bindE (combine_inner mat nps (pacv ! a) a [0..<length mat] 0 0 []) np_stack
      = Inr (vs ! a)"
    unfolding pa by (rule combine_one_model[OF len ne])
  have ih: "combine_models mat nps pacv (length mat) [Suc a..<length mat]
         = Inr (map (\<lambda>ii. vs ! ii) [Suc a..<length mat])"
    using Suc.hyps(1)[OF n] by simp
  have "combine_models mat nps pacv (length mat) (a # [Suc a..<length mat])
      = bindE (bindE (combine_inner mat nps (pacv ! a) a [0..<length mat] 0 0 []) np_stack)
          (\<lambda>v. bindE (combine_models mat nps pacv (length mat) [Suc a..<length mat])
                  (\<lambda>vs. Inr (v # vs)))"
    using al by (simp add: nth_err_def bindE_def split: sum.splits)
  then show ?case
    unfolding u one ih by (simp add: bindE_def)
qed



lemma list_ex_filter: "list_ex F xs = (filter F xs \<noteq> [])"
  by (simp add: list_ex_iff filter_empty_conv)

lemma wf_nonempty:
  assumes "wf_allocation mat" "1 \<le> ii" "ii < length mat"
  shows "filter (starred_active mat ii) [0..<length mat] \<noteq> []"
    and "filter (plain_active mat ii) [0..<length mat] \<noteq> []"
    and "filter (spec_active mat ii) [0..<length mat] \<noteq> []"
proof -
  from assms have "list_ex (starred_active mat ii) [0..<length mat]
      \<and> list_ex (plain_active mat ii) [0..<length mat]"
    by (simp add: wf_allocation_def list_all_iff)
  then show s: "filter (starred_active mat ii) [0..<length mat] \<noteq> []"
    and "filter (plain_active mat ii) [0..<length mat] \<noteq> []"
    by (simp_all add: list_ex_filter)
  then show "filter (spec_active mat ii) [0..<length mat] \<noteq> []"
    by (auto simp: filter_empty_conv spec_active_iff)
qed

lemma wf_model0:
  assumes "wf_allocation mat"
  shows "offs (spec_active mat 0) nps (length mat) = nps ! 0"
  using assms by (simp add: wf_allocation_def offs_def)

lemma single_nsamples_offs:
  "compute_single_model_nsamples mat nps ii = offs (spec_active mat ii) nps (length mat)"
  by (simp add: compute_single_model_nsamples_def active_partitions_filter offs_def)

lemma subset_indices_range:
  assumes "\<And>j. F j \<Longrightarrow> spec_active mat ii j"
    and "i \<in> set (subset_indices_of False perm mat nps ii F)"
  shows "i < offs (spec_active mat ii) nps (length mat)"
proof -
  from assms(2) obtain j where j: "j < length mat" "F j"
    and i: "i \<in> set (seg False perm (spec_active mat ii) nps j)"
    by (auto simp: subset_indices_of_def)
  then have "i < offs (spec_active mat ii) nps j + nps ! j"
    by (simp add: seg_def)
  then show ?thesis
    using offs_seg_bound[where A="spec_active mat ii" and j=j and M="length mat" and nps=nps]
      assms(1)[OF j(2)] j(1) by simp
qed

lemma partition_indices_per_acv_subset_plain:
  assumes "wf_allocation mat" "allocation_mat est = Some mat" "nmodels est = length mat"
    "rounded_npartition_samples est = Some nps" "length nps = length mat"
  shows "get_partition_indices_per_acv_subset choice est False g
         = Inr ([[], [0..<nps ! 0]]
                @ concat (map (acv_subsets_of False perm mat nps) [1..<length mat]), g)"
proof -
  let ?pidx = "get_partition_indices nps"
  have ne: "nps \<noteq> []" using assms(1,5) by (auto simp: wf_allocation_def)
  have l: "\<forall>j<length mat. length (?pidx ! j) = nps ! j"
    using assms(5) by (simp add: partition_indices_length)
  have f: "\<forall>ii. 1 \<le> ii \<and> ii < length mat \<longrightarrow>
        filter (starred_active mat ii) [0..<length mat] \<noteq> []
        \<and> filter (plain_active mat ii) [0..<length mat] \<noteq> []"
    using wf_nonempty[OF assms(1)] by blast
  have "acv_subsets_loop choice False mat (length mat) ?pidx [1..<length mat]
          [[], [0..<nps ! 0]] [] g
      = Inr ([[], [0..<nps ! 0]]
             @ concat (map (acv_subsets_of False perm mat nps) [1..<length mat]), [], g)"
    by (rule acv_subsets_loop_plain[OF l refl f]) simp
  then show ?thesis
    by (simp add: get_partition_indices_per_acv_subset_def assms(2,3,4) get_mat_def bindE_def
        Let_def partition_indices_0[OF ne])
qed

lemma roundtrip_generic:
  fixes vs :: "'a list list"
  assumes wf: "wf_allocation mat" and m: "allocation_mat est = Some mat"
    and nm: "nmodels est = length mat"
    and np: "rounded_npartition_samples est = Some nps" and ln: "length nps = length mat"
    and ns: "rounded_nsamples_per_model est
             = Some (compute_nsamples_per_model (length mat) mat nps)"
    and lv: "length vs = length mat"
    and rows: "\<forall>ii<length mat. length (vs ! ii) = compute_single_model_nsamples mat nps ii"
  shows "\<exists>acv. separate_values_per_model choice est vs False g = Inr (acv, g)
           \<and> combine_acv_values mat nps (pair_up acv) = Inr vs"
proof -
  let ?M = "length mat"
  let ?perm = "\<lambda>j::nat. [] :: nat list"
  let ?f = "\<lambda>ii. subset_indices_of False ?perm mat nps ii (starred_active mat ii)"
  let ?h = "\<lambda>ii. subset_indices_of False ?perm mat nps ii (plain_active mat ii)"
  let ?V = "\<lambda>ii. [map (\<lambda>i. vs ! ii ! i) (?f ii), map (\<lambda>i. vs ! ii ! i) (?h ii)]"
  let ?acv = "[] # vs ! 0 # concat (map ?V [1..<?M])"
  have M0: "0 < ?M" using wf by (simp add: wf_allocation_def)
  have len: "\<And>ii. ii < ?M \<Longrightarrow> length (vs ! ii) = offs (spec_active mat ii) nps ?M"
    using rows by (simp add: single_nsamples_offs)
  have l0: "length (vs ! 0) = nps ! 0"
    using len[OF M0] by (simp add: wf_model0[OF wf])
  have idx: "get_partition_indices_per_acv_subset choice est False g
         = Inr ([] # [0..<nps ! 0] # concat (map (\<lambda>ii. [?f ii, ?h ii]) [1..<?M]), g)"
    using partition_indices_per_acv_subset_plain[OF wf m nm np ln, of choice g ?perm]
    by (simp add: acv_subsets_of_def[abs_def])
  have check: "list_all (\<lambda>ii. length (vs ! ii)
        = compute_nsamples_per_model ?M mat nps ! ii) [0..<?M]"
    using rows by (simp add: list_all_iff compute_nsamples_per_model_def)
  have rng: "\<forall>ii. 1 \<le> ii \<and> ii < ?M \<longrightarrow> (\<forall>i\<in>set (?f ii) \<union> set (?h ii). i < length (vs ! ii))"
  proof (intro allI impI ballI)
    fix ii i assume ii: "1 \<le> ii \<and> ii < ?M" and i: "i \<in> set (?f ii) \<union> set (?h ii)"
    have "i < offs (spec_active mat ii) nps ?M"
      using i subset_indices_range[of "starred_active mat ii" mat ii i ?perm nps]
        subset_indices_range[of "plain_active mat ii" mat ii i ?perm nps]
      by (auto simp: spec_active_iff)
    then show "i < length (vs ! ii)" using len ii by simp
  qed
  have g2: "gather_acv_values vs (concat (map (\<lambda>ii. [?f ii, ?h ii]) [1..<?M])) (2 * 1)
      = Inr (concat (map ?V [1..<?M]))"
    by (rule gather_pairs[OF rng]) simp
  have t0: "take_rows (vs ! 0) [0..<nps ! 0] = Inr (vs ! 0)"
    using l0 map_nth[of "vs ! 0"] by (simp add: take_rows_def list_all_iff)
  have g2': "gather_acv_values vs (concat (map (\<lambda>ii. [?f ii, ?h ii]) [1..<?M])) (Suc (Suc 0))
      = Inr (concat (map ?V [1..<?M]))"
    using g2 by (simp add: numeral_2_eq_2)
  have tn: "take_rows (vs ! 0) [] = Inr []" by (simp add: take_rows_def)
  have gat: "gather_acv_values vs
       ([] # [0..<nps ! 0] # concat (map (\<lambda>ii. [?f ii, ?h ii]) [1..<?M])) 0 = Inr ?acv"
  proof -
    have d: "(0::nat) div 2 = 0" "Suc 0 div 2 = 0" by simp_all
    show ?thesis
      by (simp only: gather_acv_values.simps d tn t0 g2' bindE_def sum.case)
  qed
  have sep: "separate_values_per_model choice est vs False g = Inr (?acv, g)"
    unfolding separate_values_per_model_def lv nm ns option.case idx bindE_def sum.case
      prod.case gat
    using check by simp
  have pu: "pair_up ?acv = [[], vs ! 0] # map ?V [1..<?M]"
    by (simp add: pair_up_concat)
  have lp: "length (pair_up ?acv) = ?M" unfolding pu using M0 by simp
  have pc: "\<forall>ii. 1 \<le> ii \<and> ii < ?M \<longrightarrow>
             length (vs ! ii) = offs (spec_active mat ii) nps ?M
             \<and> filter (spec_active mat ii) [0..<?M] \<noteq> []
             \<and> ii < length (pair_up ?acv)
             \<and> pair_up ?acv ! ii = ?V ii"
  proof (intro allI impI)
    fix ii assume ii: "1 \<le> ii \<and> ii < ?M"
    then have "pair_up ?acv ! ii = map ?V [1..<?M] ! (ii - 1)"
      unfolding pu by (cases ii) simp_all
    also have "\<dots> = ?V ii"
    proof -
      from ii have i1: "1 \<le> ii" and i2: "ii < ?M" by blast+
      from i1 i2 have a: "ii - 1 < length [1..<?M]" by simp
      have "map ?V [1..<?M] ! (ii - 1) = ?V ([1..<?M] ! (ii - 1))" by (rule nth_map[OF a])
      also have "[1..<?M] ! (ii - 1) = ii" using i1 i2 by simp
      finally show ?thesis .
    qed
    finally show "length (vs ! ii) = offs (spec_active mat ii) nps ?M
             \<and> filter (spec_active mat ii) [0..<?M] \<noteq> []
             \<and> ii < length (pair_up ?acv)
             \<and> pair_up ?acv ! ii = ?V ii"
      using ii len wf_nonempty(3)[OF wf] lp by simp
  qed
  have cm: "combine_models mat nps (pair_up ?acv) ?M [1..<?M] = Inr (map (\<lambda>ii. vs ! ii) [1..<?M])"
    by (rule combine_models_values[OF pc]) simp
  have "vs = map (\<lambda>ii. vs ! ii) [0..<?M]"
    using lv map_nth[of vs] by simp
  also have "\<dots> = vs ! 0 # map (\<lambda>ii. vs ! ii) [1..<?M]"
    using M0 by (simp add: upt_conv_Cons)
  finally have vs: "vs ! 0 # map (\<lambda>ii. vs ! ii) [1..<?M] = vs" by simp
  have "combine_acv_values mat nps (pair_up ?acv) = Inr vs"
    unfolding combine_acv_values_def Let_def lp cm
    using M0 vs by (simp add: nth_err_def bindE_def pu)
  with sep show ?thesis by blast
qed



lemma policy_starred_parent:
  assumes "1 \<le> ii"
  shows "policy_entry pol rec (parent rec ii) (2 * ii) = Suc 0"
  using assms
  by (cases pol)
     (simp_all add: policy_entry_def gmf_entry_def gis_entry_def grd_entry_def active_top_def
        unit_col_def)

lemma policy_plain_self:
  assumes "1 \<le> ii"
  shows "policy_entry pol rec ii (Suc (2 * ii)) = Suc 0"
  using assms
  by (cases pol)
     (simp_all add: policy_entry_def gmf_entry_def gis_entry_def grd_entry_def active_top_def
        unit_col_def)

lemma list_ex_uptI: "j < M \<Longrightarrow> P j \<Longrightarrow> list_ex P [0..<M]"
  by (auto simp: list_ex_iff)

lemma wf_allocationI:
  assumes "0 < length mat" "filter (spec_active mat 0) [0..<length mat] = [0]"
    and "\<And>ii. 1 \<le> ii \<Longrightarrow> ii < length mat \<Longrightarrow>
           list_ex (starred_active mat ii) [0..<length mat]
           \<and> list_ex (plain_active mat ii) [0..<length mat]"
  shows "wf_allocation mat"
  unfolding wf_allocation_def using assms by (simp add: list_all_iff)

lemma policy_wf:
  assumes "valid_recursion_index rec"
  shows "wf_allocation (mk_mat (length rec + 1) (2 * (length rec + 1)) (policy_entry pol rec))"
proof -
  let ?M = "length rec + 1"
  let ?mat = "mk_mat ?M (2 * ?M) (policy_entry pol rec)"
  have a: "spec_active ?mat 0 j = (j = 0)" if "j < ?M" for j
    using that
    by (simp add: spec_active_def policy_entry_col0 policy_entry_col1 unit_col_def)
  have "filter (spec_active ?mat 0) [0..<?M] = filter (\<lambda>j. j = 0) [0..<?M]"
  proof (intro filter_cong refl)
    fix j assume "j \<in> set [0..<?M]"
    then have "j < ?M" by auto
    then show "spec_active ?mat 0 j = (j = 0)" by (rule a)
  qed
  also have "\<dots> = [0]"
    by (simp add: upt_conv_Cons filter_empty_conv del: upt_Suc)
  finally have m0: "filter (spec_active ?mat 0) [0..<length ?mat] = [0]" by simp
  have ex: "list_ex (starred_active ?mat ii) [0..<length ?mat]
      \<and> list_ex (plain_active ?mat ii) [0..<length ?mat]"
    if ii: "1 \<le> ii" "ii < ?M" for ii
  proof -
    have p: "parent rec ii < ?M"
      using valid_parent[OF assms, of ii] ii by simp
    have s: "starred_active ?mat ii (parent rec ii)"
      using p ii by (simp add: starred_active_def policy_starred_parent)
    have q: "plain_active ?mat ii ii"
      using ii by (simp add: plain_active_def policy_plain_self)
    have l: "length ?mat = ?M" by simp
    show ?thesis
      unfolding l
      using list_ex_uptI[where P="starred_active ?mat ii" and j="parent rec ii", OF p s]
        list_ex_uptI[where P="plain_active ?mat ii" and j=ii, OF ii(2) q] by blast
  qed
  have l: "length ?mat = ?M" by simp
  show ?thesis
  proof (rule wf_allocationI)
    show "0 < length ?mat" by simp
    show "filter (spec_active ?mat 0) [0..<length ?mat] = [0]" by (rule m0)
    show "list_ex (starred_active ?mat ii) [0..<length ?mat]
           \<and> list_ex (plain_active ?mat ii) [0..<length ?mat]"
      if "1 \<le> ii" "ii < length ?mat" for ii
      using ex[OF that(1)] that(2) unfolding l by blast
  qed
qed

lemma built_wf:
  assumes "built_estimator est index"
  shows "wf_allocation (the (allocation_mat est))"
    and "length (the (allocation_mat est)) = nmodels est"
proof -
  have m: "allocation_mat est
     = Some (mk_mat (nmodels est) (2 * nmodels est) (policy_entry (policy est) index))"
    by (rule built_estimator_mat[OF assms])
  from assms have v: "valid_recursion_index index" and n: "nmodels est = length index + 1"
    by (simp_all add: built_estimator_def)
  show "wf_allocation (the (allocation_mat est))"
    using policy_wf[OF v, of "policy est"] by (simp add: m n)
  show "length (the (allocation_mat est)) = nmodels est"
    by (simp add: m)
qed

text \<open>
  Claim C2, as amended. For an estimator built by one of the three policies, integer
  partition counts and per-model value arrays with the frozen per-model row counts,
  \<^verbatim>\<open>_separate_values_per_model\<close> succeeds, and \<^verbatim>\<open>_combine_acv_values\<close> applied to its output
  regrouped by model (entry \<open>m\<close> holding the subsets \<open>2m\<close> and \<open>2m + 1\<close>) returns every
  model's value array, rows in their original order.
\<close>

theorem combine_inverts_regrouped_separate:
  fixes values_per_model :: "'a list list"
  assumes "built_estimator est index"
    and "rounded_npartition_samples est = Some nps" and "length nps = nmodels est"
    and "rounded_nsamples_per_model est
         = Some (compute_nsamples_per_model (nmodels est) (the (allocation_mat est)) nps)"
    and "length values_per_model = nmodels est"
    and "\<forall>ii<nmodels est. length (values_per_model ! ii)
           = compute_single_model_nsamples (the (allocation_mat est)) nps ii"
  shows "\<exists>acv_values.
           separate_values_per_model choice est values_per_model False g = Inr (acv_values, g)
           \<and> combine_acv_values (the (allocation_mat est)) nps (pair_up acv_values)
               = Inr values_per_model"
proof -
  let ?mat = "the (allocation_mat est)"
  have m: "allocation_mat est = Some ?mat"
    using assms(1) by (simp add: built_estimator_def)
  note l = built_wf(2)[OF assms(1)]
  show ?thesis
    by (rule roundtrip_generic[OF built_wf(1)[OF assms(1)] m])
       (use assms l in simp_all)
qed

lemma gmf3_state:
  "rounded_npartition_samples gmf3 = Some [2, 1, 3]"
  "rounded_nsamples_per_model gmf3 = Some [2, 3, 6]"
  "the (allocation_mat gmf3) = [[0, 1, 1, 1, 1, 1], [0, 0, 0, 1, 1, 1], [0, 0, 0, 0, 0, 1]]"
  by (simp_all add: gmf3_def)

lemma gmf3_nsamples:
  "compute_nsamples_per_model 3
     [[0, 1, 1, 1, 1, 1], [0, 0, 0, 1, 1, 1], [0, 0, 0, 0, 0, 1]] [2, 1, 3 :: nat] = [2, 3, 6]"
  by code_simp

lemma example_separate:
  "separate_values_per_model identity_choice gmf3
     [[[10], [11]], [[20], [21], [22]], [[30], [31], [32], [33], [34], [35 :: nat]]] False ()
   = Inr ([[], [[10], [11]], [[20], [21]], [[20], [21], [22]], [[30], [31], [32]],
           [[30], [31], [32], [33], [34], [35]]], ())"
  by code_simp

text \<open>
  Claim C2, witness of the amended statement: the three-model GMF estimator with partition
  counts \<open>2, 1, 3\<close> and value arrays of \<open>2, 3, 6\<close> rows.
\<close>

theorem combine_inverts_regrouped_separate_witness:
  "separate_values_per_model identity_choice gmf3
     [[[10], [11]], [[20], [21], [22]], [[30], [31], [32], [33], [34], [35 :: nat]]] False ()
   = Inr ([[], [[10], [11]], [[20], [21]], [[20], [21], [22]], [[30], [31], [32]],
           [[30], [31], [32], [33], [34], [35]]], ())
   \<and> combine_acv_values [[0, 1, 1, 1, 1, 1], [0, 0, 0, 1, 1, 1], [0, 0, 0, 0, 0, 1]] [2, 1, 3]
       [[[], [[10], [11]]], [[[20], [21]], [[20], [21], [22]]],
        [[[30], [31], [32]], [[30], [31], [32], [33], [34], [35 :: nat]]]]
     = Inr [[[10], [11]], [[20], [21], [22]], [[30], [31], [32], [33], [34], [35]]]"
proof -
  let ?vs = "[[[10], [11]], [[20], [21], [22]], [[30], [31], [32], [33], [34], [35 :: nat]]]"
  have h1: "length [2, 1, 3 :: nat] = nmodels gmf3" by (simp add: gmf3_def)
  have h2: "rounded_nsamples_per_model gmf3
         = Some (compute_nsamples_per_model (nmodels gmf3) (the (allocation_mat gmf3)) [2, 1, 3])"
    unfolding gmf3_state gmf3_fields(3) gmf3_nsamples ..
  have h3: "length ?vs = nmodels gmf3" by (simp add: gmf3_def)
  have c: "compute_single_model_nsamples (the (allocation_mat gmf3)) [2, 1, 3 :: nat] ii
       = [2, 3, 6] ! ii" if "ii < 3" for ii
  proof -
    have "compute_nsamples_per_model 3 (the (allocation_mat gmf3)) [2, 1, 3 :: nat] ! ii
        = compute_single_model_nsamples (the (allocation_mat gmf3)) [2, 1, 3 :: nat] ii"
      using that unfolding compute_nsamples_per_model_def by (simp del: upt_Suc)
    then show ?thesis unfolding gmf3_state gmf3_nsamples by simp
  qed
  have h4: "\<forall>ii<nmodels gmf3. length (?vs ! ii)
           = compute_single_model_nsamples (the (allocation_mat gmf3)) [2, 1, 3] ii"
  proof (intro allI impI)
    fix ii assume "ii < nmodels gmf3"
    then have i: "ii < 3" by (simp add: gmf3_def)
    then have "ii = 0 \<or> ii = 1 \<or> ii = 2" by arith
    then show "length (?vs ! ii)
           = compute_single_model_nsamples (the (allocation_mat gmf3)) [2, 1, 3] ii"
      unfolding c[OF i] by auto
  qed
  from combine_inverts_regrouped_separate[OF gmf3_built gmf3_state(1) h1 h2 h3 h4,
      of identity_choice "()"]
  obtain acv where a: "separate_values_per_model identity_choice gmf3 ?vs False () = Inr (acv, ())"
    and b: "combine_acv_values (the (allocation_mat gmf3)) [2, 1, 3] (pair_up acv) = Inr ?vs"
    by blast
  from a have acv: "acv = [[], [[10], [11]], [[20], [21]], [[20], [21], [22]], [[30], [31], [32]],
           [[30], [31], [32], [33], [34], [35]]]"
    unfolding example_separate by simp
  from b show ?thesis
    unfolding acv gmf3_state example_separate by simp
qed

text \<open>
  Claim C2, as stated, fails: \<^verbatim>\<open>_separate_values_per_model\<close> returns the flat list of the
  \<open>2 * nmodels\<close> subsets, the first of them empty, and \<^verbatim>\<open>_combine_acv_values\<close> reads its
  argument as one pair per model: \<^verbatim>\<open>acv_values[0][1]\<close> is row 1 of the empty subset, an
  IndexError.
\<close>

theorem combine_rejects_flat_separate_output:
  "separate_values_per_model identity_choice gmf3
     [[[10], [11]], [[20], [21], [22]], [[30], [31], [32], [33], [34], [35 :: nat]]] False ()
   = Inr ([[], [[10], [11]], [[20], [21]], [[20], [21], [22]], [[30], [31], [32]],
           [[30], [31], [32], [33], [34], [35]]], ())
   \<and> combine_acv_values [[0, 1, 1, 1, 1, 1], [0, 0, 0, 1, 1, 1], [0, 0, 0, 0, 0, 1]] [2, 1, 3]
       [[], [[10], [11]], [[20], [21]], [[20], [21], [22]], [[30], [31], [32]],
        [[30], [31], [32], [33], [34], [35 :: nat]]]
     = Inl IndexError"
proof -
  have "combine_acv_values [[0, 1, 1, 1, 1, 1], [0, 0, 0, 1, 1, 1], [0, 0, 0, 0, 0, 1]] [2, 1, 3]
       [[], [[10], [11]], [[20], [21]], [[20], [21], [22]], [[30], [31], [32]],
        [[30], [31], [32], [33], [34], [35 :: nat]]]
     = Inl IndexError"
    by (simp add: combine_acv_values_def nth_err_def bindE_def)
  then show ?thesis using example_separate by simp
qed


section \<open>Bootstrap: one resampling per partition\<close>


lemma cache_ok_iff:
  "cache_ok rpi nps =
     (length rpi = length nps
      \<and> (\<forall>j<length nps. \<forall>p. rpi ! j = Some p \<longrightarrow>
            length p = nps ! j \<and> (\<forall>k\<in>set p. k < nps ! j)))"
proof -
  have "\<And>j. (case rpi ! j of None \<Rightarrow> True
                 | Some p \<Rightarrow> length p = nps ! j \<and> list_all (\<lambda>k. k < nps ! j) p)
        = (\<forall>p. rpi ! j = Some p \<longrightarrow> length p = nps ! j \<and> (\<forall>k\<in>set p. k < nps ! j))"
    by (simp add: list_all_iff split: option.splits)
  then show ?thesis
    by (simp add: cache_ok_def list_all_iff Ball_def)
qed

lemma cache_ok_update:
  assumes "cache_ok rpi nps" "j < length nps" "length p = nps ! j" "\<forall>k\<in>set p. k < nps ! j"
  shows "cache_ok (rpi[j := Some p]) nps"
  unfolding cache_ok_iff
proof (intro conjI allI impI)
  show "length (rpi[j := Some p]) = length nps"
    using assms(1) by (simp add: cache_ok_iff)
next
  fix i q assume i: "i < length nps" and q: "rpi[j := Some p] ! i = Some q"
  have lr: "length rpi = length nps" using assms(1) by (simp add: cache_ok_iff)
  show "length q = nps ! i"
  proof (cases "i = j")
    case True
    then show ?thesis using q assms(2,3) lr by simp
  next
    case False
    then have "rpi ! i = Some q" using q by simp
    then show ?thesis using assms(1) i unfolding cache_ok_iff by blast
  qed
  show "\<forall>k\<in>set q. k < nps ! i"
  proof (cases "i = j")
    case True
    then show ?thesis using q assms(2,4) lr by simp
  next
    case False
    then have "rpi ! i = Some q" using q by simp
    then show ?thesis using assms(1) i unfolding cache_ok_iff by blast
  qed
qed

lemma take_rows_upt:
  assumes "\<forall>k\<in>set p. k < n"
  shows "take_rows [lb..<lb + n] p = Inr (map (\<lambda>k. lb + k) p)"
proof -
  have "map (\<lambda>i. [lb..<lb + n] ! i) p = map (\<lambda>k. lb + k) p"
    using assms by (intro map_cong refl) simp
  then show ?thesis using assms by (simp add: take_rows_def list_all_iff)
qed

lemma assign_subsets_boot_cached:
  assumes "rpi ! idx = Some p" "\<forall>k\<in>set p. k < length (pidx ! idx)"
  shows "assign_subsets choice True pidx (idx # rest) lb si rpi g
         = assign_subsets choice True pidx rest (lb + length (pidx ! idx))
             (si[idx := Some (map (\<lambda>k. lb + k) p)]) rpi g"
  using assms by (simp add: Let_def take_rows_upt bindE_def)

lemma assign_subsets_boot_fresh:
  assumes "rpi ! idx = None" "choice g (length (pidx ! idx)) = (p, g1)"
    "\<forall>k\<in>set p. k < length (pidx ! idx)"
  shows "assign_subsets choice True pidx (idx # rest) lb si rpi g
         = assign_subsets choice True pidx rest (lb + length (pidx ! idx))
             (si[idx := Some (map (\<lambda>k. lb + k) p)]) (rpi[idx := Some p]) g1"
  using assms by (simp add: Let_def take_rows_upt bindE_def)

lemma assign_subsets_boot_step:
  assumes ch: "\<forall>g n. length (fst (choice g n)) = n \<and> (\<forall>k\<in>set (fst (choice g n)). k < n)"
    and c: "cache_ok rpi nps" and a: "a < length nps"
    and l: "length (pidx ! a) = nps ! a"
  shows "\<exists>p rpi1 g1.
     assign_subsets choice True pidx (a # rest) lb si rpi g
       = assign_subsets choice True pidx rest (lb + nps ! a)
           (si[a := Some (map (\<lambda>k. lb + k) p)]) rpi1 g1
     \<and> rpi1 ! a = Some p \<and> cache_ok rpi1 nps
     \<and> (\<forall>j<length nps. rpi ! j \<noteq> None \<longrightarrow> rpi1 ! j = rpi ! j)"
proof (cases "rpi ! a")
  case None
  obtain p g1 where pg: "choice g (length (pidx ! a)) = (p, g1)" by (cases "choice g (length (pidx ! a))")
  have v: "length p = nps ! a" "\<forall>k\<in>set p. k < nps ! a"
    using ch[rule_format, of g "length (pidx ! a)"] pg l by auto
  have la: "a < length rpi" using c a by (simp add: cache_ok_iff)
  have "assign_subsets choice True pidx (a # rest) lb si rpi g
       = assign_subsets choice True pidx rest (lb + nps ! a)
           (si[a := Some (map (\<lambda>k. lb + k) p)]) (rpi[a := Some p]) g1"
    using assign_subsets_boot_fresh[where rpi=rpi and idx=a and choice=choice and g=g
        and pidx=pidx and p=p and ?g1.0=g1 and rest=rest and lb=lb and si=si] None pg v l
    by simp
  moreover have "(rpi[a := Some p]) ! a = Some p" using la by simp
  moreover have "cache_ok (rpi[a := Some p]) nps" by (rule cache_ok_update[OF c a v])
  moreover have "\<forall>j<length nps. rpi ! j \<noteq> None \<longrightarrow> (rpi[a := Some p]) ! j = rpi ! j"
    using None by (metis nth_list_update_neq)
  ultimately show ?thesis
    by (intro exI[of _ p] exI[of _ "rpi[a := Some p]"] exI[of _ g1]) simp
next
  case (Some p)
  have v: "length p = nps ! a" "\<forall>k\<in>set p. k < nps ! a"
    using c a Some unfolding cache_ok_iff by blast+
  have "assign_subsets choice True pidx (a # rest) lb si rpi g
       = assign_subsets choice True pidx rest (lb + nps ! a)
           (si[a := Some (map (\<lambda>k. lb + k) p)]) rpi g"
    using assign_subsets_boot_cached[where rpi=rpi and idx=a and choice=choice and g=g
        and pidx=pidx and p=p and rest=rest and lb=lb and si=si] Some v l
    by simp
  then show ?thesis using Some c by (intro exI[of _ p] exI[of _ rpi] exI[of _ g]) simp
qed

lemma perm_of_Some: "rpi ! j = Some p \<Longrightarrow> perm_of rpi j = p"
  by (simp add: perm_of_def)

lemma assign_subsets_boot:
  assumes ch: "\<forall>g n. length (fst (choice g n)) = n \<and> (\<forall>k\<in>set (fst (choice g n)). k < n)"
    and pl: "\<forall>j<length nps. length (pidx ! j) = nps ! j"
  shows "a \<le> length nps \<Longrightarrow> length si = length nps \<Longrightarrow> cache_ok rpi nps \<Longrightarrow>
    \<exists>rpi' g'.
      assign_subsets choice True pidx (filter A [a..<length nps]) (offs A nps a) si rpi g
        = Inr (map (\<lambda>j. if a \<le> j \<and> A j then Some (seg True (perm_of rpi') A nps j)
                         else si ! j) [0..<length nps], rpi', g')
      \<and> cache_ok rpi' nps
      \<and> (\<forall>j<length nps. rpi ! j \<noteq> None \<longrightarrow> rpi' ! j = rpi ! j)
      \<and> (\<forall>j<length nps. a \<le> j \<and> A j \<longrightarrow> rpi' ! j \<noteq> None)"
proof (induction "length nps - a" arbitrary: a si rpi g)
  case 0
  then have aM: "a = length nps" by simp
  then have e: "filter A [a..<length nps] = []" by simp
  have "map (\<lambda>j. if a \<le> j \<and> A j then Some (seg True (perm_of rpi) A nps j) else si ! j)
          [0..<length nps]
      = map (\<lambda>j. si ! j) [0..<length nps]"
    using aM by (intro map_cong) auto
  also have "\<dots> = si" using 0(3) map_nth[of si] by simp
  finally have "assign_subsets choice True pidx (filter A [a..<length nps]) (offs A nps a) si rpi g
        = Inr (map (\<lambda>j. if a \<le> j \<and> A j then Some (seg True (perm_of rpi) A nps j)
                         else si ! j) [0..<length nps], rpi, g)"
    unfolding e by simp
  moreover have "\<forall>j<length nps. a \<le> j \<and> A j \<longrightarrow> rpi ! j \<noteq> None" using aM by simp
  ultimately show ?case using 0(4)
    by (intro exI[of _ rpi] exI[of _ g]) simp
next
  case (Suc n)
  let ?M = "length nps"
  from Suc have aM: "a < ?M" and n: "n = ?M - Suc a" by simp_all
  show ?case
  proof (cases "A a")
    case True
    have l: "length (pidx ! a) = nps ! a" using pl aM by simp
    have "\<exists>p rpi1 g1.
      assign_subsets choice True pidx (a # filter A [Suc a..<?M]) (offs A nps a) si rpi g
       = assign_subsets choice True pidx (filter A [Suc a..<?M]) (offs A nps a + nps ! a)
           (si[a := Some (map (\<lambda>k. offs A nps a + k) p)]) rpi1 g1
      \<and> rpi1 ! a = Some p \<and> cache_ok rpi1 nps
      \<and> (\<forall>j<?M. rpi ! j \<noteq> None \<longrightarrow> rpi1 ! j = rpi ! j)"
      by (rule assign_subsets_boot_step[OF ch Suc.prems(3) aM l])
    then obtain p rpi1 g1 where
      st: "assign_subsets choice True pidx (a # filter A [Suc a..<?M]) (offs A nps a) si rpi g
       = assign_subsets choice True pidx (filter A [Suc a..<?M]) (offs A nps a + nps ! a)
           (si[a := Some (map (\<lambda>k. offs A nps a + k) p)]) rpi1 g1"
      and r1: "rpi1 ! a = Some p" and c1: "cache_ok rpi1 nps"
      and k1: "\<forall>j<?M. rpi ! j \<noteq> None \<longrightarrow> rpi1 ! j = rpi ! j"
      by blast
    let ?si1 = "si[a := Some (map (\<lambda>k. offs A nps a + k) p)]"
    have o: "offs A nps (Suc a) = offs A nps a + nps ! a" using True by (simp add: offs_Suc)
    have ls: "length ?si1 = ?M" using Suc.prems(2) by simp
    have sa: "Suc a \<le> ?M" using aM by simp
    from Suc.hyps(1)[OF n sa ls c1, of g1]
    obtain rpi' g' where
      ih: "assign_subsets choice True pidx (filter A [Suc a..<?M]) (offs A nps (Suc a)) ?si1 rpi1 g1
        = Inr (map (\<lambda>j. if Suc a \<le> j \<and> A j then Some (seg True (perm_of rpi') A nps j)
                         else ?si1 ! j) [0..<?M], rpi', g')"
      and c': "cache_ok rpi' nps"
      and k': "\<forall>j<?M. rpi1 ! j \<noteq> None \<longrightarrow> rpi' ! j = rpi1 ! j"
      and d': "\<forall>j<?M. Suc a \<le> j \<and> A j \<longrightarrow> rpi' ! j \<noteq> None"
      by blast
    have ra: "rpi' ! a = Some p" using k' r1 aM by simp
    have eq: "map (\<lambda>j. if Suc a \<le> j \<and> A j then Some (seg True (perm_of rpi') A nps j)
                         else ?si1 ! j) [0..<?M]
        = map (\<lambda>j. if a \<le> j \<and> A j then Some (seg True (perm_of rpi') A nps j) else si ! j)
            [0..<?M]"
    proof (intro map_cong refl)
      fix j assume "j \<in> set [0..<?M]"
      show "(if Suc a \<le> j \<and> A j then Some (seg True (perm_of rpi') A nps j) else ?si1 ! j)
          = (if a \<le> j \<and> A j then Some (seg True (perm_of rpi') A nps j) else si ! j)"
      proof (cases "j = a")
        case True
        then show ?thesis
          using \<open>A a\<close> aM Suc.prems(2) by (simp add: seg_def perm_of_Some[OF ra])
      next
        case False
        then show ?thesis by auto
      qed
    qed
    have f: "filter A [a..<?M] = a # filter A [Suc a..<?M]"
      unfolding filter_upt_step[OF aM] using True by simp
    have r: "assign_subsets choice True pidx (filter A [a..<?M]) (offs A nps a) si rpi g
        = Inr (map (\<lambda>j. if a \<le> j \<and> A j then Some (seg True (perm_of rpi') A nps j) else si ! j)
            [0..<?M], rpi', g')"
      unfolding f st o[symmetric] ih eq ..
    have kk: "\<forall>j<?M. rpi ! j \<noteq> None \<longrightarrow> rpi' ! j = rpi ! j"
    proof (intro allI impI)
      fix j assume j: "j < ?M" "rpi ! j \<noteq> None"
      then have "rpi1 ! j = rpi ! j" using k1 by simp
      then show "rpi' ! j = rpi ! j" using k' j by simp
    qed
    have "\<forall>j<?M. a \<le> j \<and> A j \<longrightarrow> rpi' ! j \<noteq> None"
    proof (intro allI impI)
      fix j assume j: "j < ?M" "a \<le> j \<and> A j"
      show "rpi' ! j \<noteq> None"
      proof (cases "j = a")
        case True
        then show ?thesis using ra by simp
      next
        case False
        then show ?thesis using d' j by simp
      qed
    qed
    then show ?thesis using r c' kk
      by (intro exI[of _ rpi'] exI[of _ g']) simp
  next
    case False
    have o: "offs A nps (Suc a) = offs A nps a" using False by (simp add: offs_Suc)
    have sa: "Suc a \<le> ?M" using aM by simp
    from Suc.hyps(1)[OF n sa Suc.prems(2,3), of g]
    obtain rpi' g' where
      ih: "assign_subsets choice True pidx (filter A [Suc a..<?M]) (offs A nps (Suc a)) si rpi g
        = Inr (map (\<lambda>j. if Suc a \<le> j \<and> A j then Some (seg True (perm_of rpi') A nps j)
                         else si ! j) [0..<?M], rpi', g')"
      and c': "cache_ok rpi' nps"
      and k': "\<forall>j<?M. rpi ! j \<noteq> None \<longrightarrow> rpi' ! j = rpi ! j"
      and d': "\<forall>j<?M. Suc a \<le> j \<and> A j \<longrightarrow> rpi' ! j \<noteq> None"
      by blast
    have eq: "map (\<lambda>j. if Suc a \<le> j \<and> A j then Some (seg True (perm_of rpi') A nps j)
                         else si ! j) [0..<?M]
        = map (\<lambda>j. if a \<le> j \<and> A j then Some (seg True (perm_of rpi') A nps j) else si ! j)
            [0..<?M]"
    proof (intro map_cong refl)
      fix j assume "j \<in> set [0..<?M]"
      show "(if Suc a \<le> j \<and> A j then Some (seg True (perm_of rpi') A nps j) else si ! j)
          = (if a \<le> j \<and> A j then Some (seg True (perm_of rpi') A nps j) else si ! j)"
        using False by (cases "j = a") auto
    qed
    have f: "filter A [a..<?M] = filter A [Suc a..<?M]"
      unfolding filter_upt_step[OF aM] using False by simp
    have r: "assign_subsets choice True pidx (filter A [a..<?M]) (offs A nps a) si rpi g
        = Inr (map (\<lambda>j. if a \<le> j \<and> A j then Some (seg True (perm_of rpi') A nps j) else si ! j)
            [0..<?M], rpi', g')"
      unfolding f o[symmetric] ih eq ..
    have "\<forall>j<?M. a \<le> j \<and> A j \<longrightarrow> rpi' ! j \<noteq> None"
    proof (intro allI impI)
      fix j assume j: "j < ?M" "a \<le> j \<and> A j"
      then have "j \<noteq> a" using False by auto
      then show "rpi' ! j \<noteq> None" using d' j by simp
    qed
    then show ?thesis using r c' k'
      by (intro exI[of _ rpi'] exI[of _ g']) simp
  qed
qed



lemma acv_subsets_perm_cong:
  assumes "\<forall>j<length mat. spec_active mat ii j \<longrightarrow> perm j = perm' j"
  shows "acv_subsets_of True perm mat nps ii = acv_subsets_of True perm' mat nps ii"
proof -
  have h: "map (seg True perm (spec_active mat ii) nps) (filter F [0..<length mat])
      = map (seg True perm' (spec_active mat ii) nps) (filter F [0..<length mat])"
    if "\<And>j. F j \<Longrightarrow> spec_active mat ii j" for F
    using assms that by (intro map_cong refl) (simp add: seg_def)
  have h1: "map (seg True perm (spec_active mat ii) nps)
              (filter (starred_active mat ii) [0..<length mat])
      = map (seg True perm' (spec_active mat ii) nps)
              (filter (starred_active mat ii) [0..<length mat])"
    by (rule h) (simp add: spec_active_iff)
  have h2: "map (seg True perm (spec_active mat ii) nps)
              (filter (plain_active mat ii) [0..<length mat])
      = map (seg True perm' (spec_active mat ii) nps)
              (filter (plain_active mat ii) [0..<length mat])"
    by (rule h) (simp add: spec_active_iff)
  show ?thesis
    unfolding acv_subsets_of_def subset_indices_of_def h1 h2 ..
qed

lemma acv_subsets_loop_boot_step:
  assumes ch: "\<forall>g n. length (fst (choice g n)) = n \<and> (\<forall>k\<in>set (fst (choice g n)). k < n)"
    and pl: "\<forall>j<length nps. length (pidx ! j) = nps ! j"
    and lm: "length mat = length nps"
    and f1: "filter (starred_active mat a) [0..<length nps] \<noteq> []"
    and f2: "filter (plain_active mat a) [0..<length nps] \<noteq> []"
    and c: "cache_ok rpi nps"
  shows "\<exists>rpi1 g1.
     acv_subsets_loop choice True mat (length nps) pidx (a # rest) acc rpi g
       = acv_subsets_loop choice True mat (length nps) pidx rest
           (acc @ acv_subsets_of True (perm_of rpi1) mat nps a) rpi1 g1
     \<and> cache_ok rpi1 nps
     \<and> (\<forall>j<length nps. rpi ! j \<noteq> None \<longrightarrow> rpi1 ! j = rpi ! j)
     \<and> (\<forall>j<length nps. spec_active mat a j \<longrightarrow> rpi1 ! j \<noteq> None)"
proof -
  let ?M = "length nps"
  let ?A = "spec_active mat a"
  have "\<exists>rpi' g'.
      assign_subsets choice True pidx (filter ?A [0..<?M]) (offs ?A nps 0)
          (replicate ?M None) rpi g
        = Inr (map (\<lambda>j. if 0 \<le> j \<and> ?A j then Some (seg True (perm_of rpi') ?A nps j)
                         else replicate ?M None ! j) [0..<?M], rpi', g')
      \<and> cache_ok rpi' nps
      \<and> (\<forall>j<?M. rpi ! j \<noteq> None \<longrightarrow> rpi' ! j = rpi ! j)
      \<and> (\<forall>j<?M. 0 \<le> j \<and> ?A j \<longrightarrow> rpi' ! j \<noteq> None)"
    by (rule assign_subsets_boot[OF ch pl _ _ c]) simp_all
  then obtain rpi1 g1 where
    as0: "assign_subsets choice True pidx (filter ?A [0..<?M]) (offs ?A nps 0)
          (replicate ?M None) rpi g
        = Inr (map (\<lambda>j. if 0 \<le> j \<and> ?A j then Some (seg True (perm_of rpi1) ?A nps j)
                         else replicate ?M None ! j) [0..<?M], rpi1, g1)"
    and c1: "cache_ok rpi1 nps"
    and k1: "\<forall>j<?M. rpi ! j \<noteq> None \<longrightarrow> rpi1 ! j = rpi ! j"
    and d1: "\<forall>j<?M. 0 \<le> j \<and> ?A j \<longrightarrow> rpi1 ! j \<noteq> None"
    by blast
  let ?sg = "seg True (perm_of rpi1) ?A nps"
  let ?si = "map (\<lambda>j. if 0 \<le> j \<and> ?A j then Some (?sg j) else None) [0..<?M]"
  have "map (\<lambda>j. if 0 \<le> j \<and> ?A j then Some (?sg j) else replicate ?M None ! j) [0..<?M] = ?si"
    by (intro map_cong refl) simp
  with as0 have as: "assign_subsets choice True pidx (active_partitions mat a) 0
           (replicate ?M None) rpi g = Inr (?si, rpi1, g1)"
    by (simp add: active_partitions_filter lm)
  have m1: "map (subset_at ?si) (filter (starred_active mat a) [0..<?M])
      = map ?sg (filter (starred_active mat a) [0..<?M])"
    by (rule subsets_from_si) (simp add: spec_active_iff)
  have m2: "map (subset_at ?si) (filter (plain_active mat a) [0..<?M])
      = map ?sg (filter (plain_active mat a) [0..<?M])"
    by (rule subsets_from_si) (simp add: spec_active_iff)
  have s1: "np_stack (map (subset_at ?si) (np_where1 (get_col mat (2 * a))))
      = Inr (subset_indices_of True (perm_of rpi1) mat nps a (starred_active mat a))"
    unfolding np_where1_starred lm m1
    using f1 by (simp add: np_stack_def subset_indices_of_def lm)
  have s2: "np_stack (map (subset_at ?si) (np_where1 (get_col mat (2 * a + 1))))
      = Inr (subset_indices_of True (perm_of rpi1) mat nps a (plain_active mat a))"
    unfolding np_where1_plain lm m2
    using f2 by (simp add: np_stack_def subset_indices_of_def lm)
  have st: "acv_subsets_loop choice True mat ?M pidx (a # rest) acc rpi g
       = acv_subsets_loop choice True mat ?M pidx rest
           (acc @ acv_subsets_of True (perm_of rpi1) mat nps a) rpi1 g1"
    by (simp only: acv_subsets_loop.simps as bindE_def sum.case prod.case s1 s2
        acv_subsets_of_def)
  have d: "\<forall>j<?M. ?A j \<longrightarrow> rpi1 ! j \<noteq> None" using d1 by simp
  show ?thesis
    using st c1 k1 d by (intro exI[of _ rpi1] exI[of _ g1]) simp
qed

lemma acv_subsets_loop_boot:
  assumes ch: "\<forall>g n. length (fst (choice g n)) = n \<and> (\<forall>k\<in>set (fst (choice g n)). k < n)"
    and pl: "\<forall>j<length nps. length (pidx ! j) = nps ! j"
    and lm: "length mat = length nps"
    and ne: "\<forall>ii. 1 \<le> ii \<and> ii < length nps \<longrightarrow>
               filter (starred_active mat ii) [0..<length nps] \<noteq> []
               \<and> filter (plain_active mat ii) [0..<length nps] \<noteq> []"
  shows "1 \<le> a \<Longrightarrow> cache_ok rpi nps \<Longrightarrow>
    \<exists>rpi' g'.
      acv_subsets_loop choice True mat (length nps) pidx [a..<length nps] acc rpi g
        = Inr (acc @ concat (map (acv_subsets_of True (perm_of rpi') mat nps) [a..<length nps]),
               rpi', g')
      \<and> cache_ok rpi' nps
      \<and> (\<forall>j<length nps. rpi ! j \<noteq> None \<longrightarrow> rpi' ! j = rpi ! j)
      \<and> (\<forall>ii j. a \<le> ii \<and> ii < length nps \<and> j < length nps \<and> spec_active mat ii j
            \<longrightarrow> rpi' ! j \<noteq> None)"
proof (induction "length nps - a" arbitrary: a acc rpi g)
  case 0
  then have e: "[a..<length nps] = []" by simp
  have "\<forall>ii j. a \<le> ii \<and> ii < length nps \<and> j < length nps \<and> spec_active mat ii j
            \<longrightarrow> rpi ! j \<noteq> None"
    using 0 by auto
  then show ?case unfolding e using 0(3)
    by (intro exI[of _ rpi] exI[of _ g]) simp
next
  case (Suc n)
  let ?M = "length nps"
  from Suc have aM: "a < ?M" and n: "n = ?M - Suc a" by simp_all
  have u: "[a..<?M] = a # [Suc a..<?M]" using aM by (simp add: upt_conv_Cons)
  have f: "filter (starred_active mat a) [0..<?M] \<noteq> []" "filter (plain_active mat a) [0..<?M] \<noteq> []"
    using ne aM Suc.prems(1) by blast+
  have "\<exists>rpi1 g1.
     acv_subsets_loop choice True mat ?M pidx (a # [Suc a..<?M]) acc rpi g
       = acv_subsets_loop choice True mat ?M pidx [Suc a..<?M]
           (acc @ acv_subsets_of True (perm_of rpi1) mat nps a) rpi1 g1
     \<and> cache_ok rpi1 nps
     \<and> (\<forall>j<?M. rpi ! j \<noteq> None \<longrightarrow> rpi1 ! j = rpi ! j)
     \<and> (\<forall>j<?M. spec_active mat a j \<longrightarrow> rpi1 ! j \<noteq> None)"
    by (rule acv_subsets_loop_boot_step[OF ch pl lm f Suc.prems(2)])
  then obtain rpi1 g1 where
    st: "acv_subsets_loop choice True mat ?M pidx (a # [Suc a..<?M]) acc rpi g
       = acv_subsets_loop choice True mat ?M pidx [Suc a..<?M]
           (acc @ acv_subsets_of True (perm_of rpi1) mat nps a) rpi1 g1"
    and c1: "cache_ok rpi1 nps"
    and k1: "\<forall>j<?M. rpi ! j \<noteq> None \<longrightarrow> rpi1 ! j = rpi ! j"
    and d1: "\<forall>j<?M. spec_active mat a j \<longrightarrow> rpi1 ! j \<noteq> None"
    by blast
  have sa: "1 \<le> Suc a" by simp
  from Suc.hyps(1)[OF n sa c1, of "acc @ acv_subsets_of True (perm_of rpi1) mat nps a" g1]
  obtain rpi' g' where
    ih: "acv_subsets_loop choice True mat ?M pidx [Suc a..<?M]
           (acc @ acv_subsets_of True (perm_of rpi1) mat nps a) rpi1 g1
        = Inr ((acc @ acv_subsets_of True (perm_of rpi1) mat nps a)
               @ concat (map (acv_subsets_of True (perm_of rpi') mat nps) [Suc a..<?M]),
               rpi', g')"
    and c': "cache_ok rpi' nps"
    and k': "\<forall>j<?M. rpi1 ! j \<noteq> None \<longrightarrow> rpi' ! j = rpi1 ! j"
    and d': "\<forall>ii j. Suc a \<le> ii \<and> ii < ?M \<and> j < ?M \<and> spec_active mat ii j
            \<longrightarrow> rpi' ! j \<noteq> None"
    by blast
  have same: "\<forall>j<length mat. spec_active mat a j \<longrightarrow> perm_of rpi1 j = perm_of rpi' j"
    using d1 k' by (simp add: perm_of_def lm)
  have pc: "acv_subsets_of True (perm_of rpi1) mat nps a = acv_subsets_of True (perm_of rpi') mat nps a"
    by (rule acv_subsets_perm_cong[OF same])
  have r: "acv_subsets_loop choice True mat ?M pidx [a..<?M] acc rpi g
        = Inr (acc @ concat (map (acv_subsets_of True (perm_of rpi') mat nps) [a..<?M]), rpi', g')"
    unfolding u st[unfolded pc] ih[unfolded pc] by simp
  have kk: "\<forall>j<?M. rpi ! j \<noteq> None \<longrightarrow> rpi' ! j = rpi ! j"
  proof (intro allI impI)
    fix j assume j: "j < ?M" "rpi ! j \<noteq> None"
    then have "rpi1 ! j = rpi ! j" using k1 by simp
    then show "rpi' ! j = rpi ! j" using k' j by simp
  qed
  have dd: "\<forall>ii j. a \<le> ii \<and> ii < ?M \<and> j < ?M \<and> spec_active mat ii j \<longrightarrow> rpi' ! j \<noteq> None"
  proof (intro allI impI)
    fix ii j assume h: "a \<le> ii \<and> ii < ?M \<and> j < ?M \<and> spec_active mat ii j"
    show "rpi' ! j \<noteq> None"
    proof (cases "ii = a")
      case True
      then have "rpi1 ! j \<noteq> None" using d1 h by simp
      then show ?thesis using k' h by simp
    next
      case False
      then have "Suc a \<le> ii" using h by simp
      then show ?thesis using d' h by blast
    qed
  qed
  show ?case using r c' kk dd
    by (intro exI[of _ rpi'] exI[of _ g']) simp
qed



lemma cache_ok_empty: "cache_ok (replicate (length nps) None) nps"
  by (simp add: cache_ok_iff)

lemma perm_of_valid:
  assumes "cache_ok rpi nps" "j < length nps"
  shows "\<forall>k\<in>set (perm_of rpi j). k < nps ! j"
    and "rpi ! j \<noteq> None \<Longrightarrow> length (perm_of rpi j) = nps ! j"
proof -
  show "\<forall>k\<in>set (perm_of rpi j). k < nps ! j"
  proof (cases "rpi ! j")
    case None
    then show ?thesis by (simp add: perm_of_def)
  next
    case (Some p)
    then have "\<forall>k\<in>set p. k < nps ! j" using assms unfolding cache_ok_iff by blast
    then show ?thesis using Some by (simp add: perm_of_def)
  qed
  show "length (perm_of rpi j) = nps ! j" if "rpi ! j \<noteq> None"
  proof -
    from that obtain p where p: "rpi ! j = Some p" by auto
    then have "length p = nps ! j" using assms unfolding cache_ok_iff by blast
    then show ?thesis using p by (simp add: perm_of_def)
  qed
qed

text \<open>
  Claim C8. In a bootstrap replicate of an estimator built by one of the three policies,
  whatever the random generator draws (index arrays of the requested size, with
  replacement), \<^verbatim>\<open>_get_partition_indices_per_acv_subset\<close> succeeds and there is one array of
  resampled indices per partition such that every acv subset of every model is the
  concatenation, over the partitions active in its column, of the model's offset of the
  partition plus that one array: the array of a partition is the same in every subset that
  contains the partition. Each array indexes into its partition and has the size of the
  partition when the partition is used.
\<close>

theorem bootstrap_shares_partition_permutation:
  assumes "built_estimator est index"
    and "rounded_npartition_samples est = Some nps" and "length nps = nmodels est"
    and "\<forall>g n. length (fst (choice g n)) = n \<and> (\<forall>k\<in>set (fst (choice g n)). k < n)"
  shows "\<exists>perm subsets g'.
           get_partition_indices_per_acv_subset choice est True g = Inr (subsets, g')
           \<and> subsets = shared_permutation_subsets perm (the (allocation_mat est)) nps
           \<and> (\<forall>j<nmodels est.
                 (\<forall>k\<in>set (perm j). k < nps ! j)
                 \<and> (j = 0 \<or> (\<exists>ii. 1 \<le> ii \<and> ii < nmodels est
                               \<and> spec_active (the (allocation_mat est)) ii j)
                    \<longrightarrow> length (perm j) = nps ! j))"
proof -
  obtain mat where m: "allocation_mat est = Some mat"
    using assms(1) by (auto simp: built_estimator_def)
  then have tm: "the (allocation_mat est) = mat" by simp
  let ?M = "length nps"
  let ?pidx = "get_partition_indices nps"
  have gm: "get_mat est = Inr mat" by (simp add: get_mat_def m)
  have wf: "wf_allocation mat" using built_wf(1)[OF assms(1)] tm by simp
  have lm: "length mat = ?M" using built_wf(2)[OF assms(1)] assms(3) tm by simp
  have M0: "0 < ?M" using wf lm by (simp add: wf_allocation_def)
  then have ne: "nps \<noteq> []" by auto
  have pl: "\<forall>j<?M. length (?pidx ! j) = nps ! j"
    by (simp add: partition_indices_length)
  have p0: "?pidx ! 0 = [0..<0 + nps ! 0]" using partition_indices_0[OF ne] by simp
  obtain q g1 where ch0: "choice g (length (?pidx ! 0)) = (q, g1)"
    by (cases "choice g (length (?pidx ! 0))")
  have qv: "length q = nps ! 0" "\<forall>k\<in>set q. k < nps ! 0"
    using assms(4)[rule_format, of g "length (?pidx ! 0)"] ch0 pl M0 by auto
  have tr: "take_rows (?pidx ! 0) q = Inr q"
  proof -
    have e: "map ((+) 0) q = q" by (induction q) simp_all
    show ?thesis unfolding p0 take_rows_upt[OF qv(2)] e ..
  qed
  let ?rpi0 = "(replicate ?M None)[0 := Some q]"
  have c0: "cache_ok ?rpi0 nps"
    by (rule cache_ok_update[OF cache_ok_empty M0 qv])
  have nef: "\<forall>ii. 1 \<le> ii \<and> ii < ?M \<longrightarrow>
        filter (starred_active mat ii) [0..<?M] \<noteq> []
        \<and> filter (plain_active mat ii) [0..<?M] \<noteq> []"
    using wf_nonempty[OF wf] lm by auto
  have "\<exists>rpi' g'.
      acv_subsets_loop choice True mat ?M ?pidx [1..<?M] [[], q] ?rpi0 g1
        = Inr ([[], q] @ concat (map (acv_subsets_of True (perm_of rpi') mat nps) [1..<?M]),
               rpi', g')
      \<and> cache_ok rpi' nps
      \<and> (\<forall>j<?M. ?rpi0 ! j \<noteq> None \<longrightarrow> rpi' ! j = ?rpi0 ! j)
      \<and> (\<forall>ii j. 1 \<le> ii \<and> ii < ?M \<and> j < ?M \<and> spec_active mat ii j \<longrightarrow> rpi' ! j \<noteq> None)"
    by (rule acv_subsets_loop_boot[OF assms(4) pl lm nef _ c0]) simp
  then obtain rpi' g' where
    lp: "acv_subsets_loop choice True mat ?M ?pidx [1..<?M] [[], q] ?rpi0 g1
        = Inr ([[], q] @ concat (map (acv_subsets_of True (perm_of rpi') mat nps) [1..<?M]),
               rpi', g')"
    and c': "cache_ok rpi' nps"
    and k': "\<forall>j<?M. ?rpi0 ! j \<noteq> None \<longrightarrow> rpi' ! j = ?rpi0 ! j"
    and d': "\<forall>ii j. 1 \<le> ii \<and> ii < ?M \<and> j < ?M \<and> spec_active mat ii j \<longrightarrow> rpi' ! j \<noteq> None"
    by blast
  have r0: "rpi' ! 0 = Some q" using k' M0 by simp
  have pq: "perm_of rpi' 0 = q" by (rule perm_of_Some[OF r0])
  have res: "get_partition_indices_per_acv_subset choice est True g
      = Inr (shared_permutation_subsets (perm_of rpi') mat nps, g')"
    unfolding get_partition_indices_per_acv_subset_def assms(2) option.case gm
      bindE_def sum.case Let_def ch0 prod.case assms(3)[symmetric] tr lp
      shared_permutation_subsets_def pq lm
    using ne by simp
  have val: "\<forall>j<nmodels est.
                 (\<forall>k\<in>set (perm_of rpi' j). k < nps ! j)
                 \<and> (j = 0 \<or> (\<exists>ii. 1 \<le> ii \<and> ii < nmodels est \<and> spec_active mat ii j)
                    \<longrightarrow> length (perm_of rpi' j) = nps ! j)"
  proof (intro allI impI conjI)
    fix j assume j: "j < nmodels est"
    then have jM: "j < ?M" using assms(3) by simp
    show "\<forall>k\<in>set (perm_of rpi' j). k < nps ! j"
      by (rule perm_of_valid(1)[OF c' jM])
    assume a: "j = 0 \<or> (\<exists>ii. 1 \<le> ii \<and> ii < nmodels est \<and> spec_active mat ii j)"
    have "rpi' ! j \<noteq> None"
    proof (cases "j = 0")
      case True
      then show ?thesis using r0 by simp
    next
      case False
      with a obtain ii where "1 \<le> ii \<and> ii < ?M \<and> spec_active mat ii j"
        using assms(3) by auto
      then show ?thesis using d' jM by blast
    qed
    then show "length (perm_of rpi' j) = nps ! j"
      by (rule perm_of_valid(2)[OF c' jM])
  qed
  show ?thesis
    unfolding tm using res val
    by (intro exI[of _ "perm_of rpi'"]
          exI[of _ "shared_permutation_subsets (perm_of rpi') mat nps"] exI[of _ g']) simp
qed



lemma rotate_choice_ok:
  "\<forall>g n. length (fst (rotate_choice g n)) = n \<and> (\<forall>k\<in>set (fst (rotate_choice g n)). k < n)"
  by (auto simp: rotate_choice_def)

lemma example_bootstrap:
  "get_partition_indices_per_acv_subset rotate_choice gmf3 True 1
   = Inr ([[], [1, 0], [1, 0], [1, 0, 2], [1, 0, 2], [1, 0, 2, 5, 3, 4]], 7)"
  by code_simp

text \<open>
  Claim C8, witness: the three-model GMF estimator with partition counts \<open>2, 1, 3\<close> and a
  generator whose draws change with every call; partition 0 is resampled as \<open>[1, 0]\<close> in
  all five subsets that contain it.
\<close>

theorem bootstrap_shares_partition_permutation_witness:
  "\<exists>perm. get_partition_indices_per_acv_subset rotate_choice gmf3 True 1
            = Inr (shared_permutation_subsets perm
                     [[0, 1, 1, 1, 1, 1], [0, 0, 0, 1, 1, 1], [0, 0, 0, 0, 0, 1]] [2, 1, 3], 7)
          \<and> shared_permutation_subsets perm
               [[0, 1, 1, 1, 1, 1], [0, 0, 0, 1, 1, 1], [0, 0, 0, 0, 0, 1]] [2, 1, 3]
            = [[], [1, 0], [1, 0], [1, 0, 2], [1, 0, 2], [1, 0, 2, 5, 3, 4]]"
proof -
  have h: "length [2, 1, 3 :: nat] = nmodels gmf3" by (simp add: gmf3_def)
  from bootstrap_shares_partition_permutation[OF gmf3_built gmf3_state(1) h rotate_choice_ok,
      of 1]
  obtain perm subsets g' where
    a: "get_partition_indices_per_acv_subset rotate_choice gmf3 True 1 = Inr (subsets, g')"
    and b: "subsets = shared_permutation_subsets perm (the (allocation_mat gmf3)) [2, 1, 3]"
    by blast
  from a have s: "subsets = [[], [1, 0], [1, 0], [1, 0, 2], [1, 0, 2], [1, 0, 2, 5, 3, 4]]"
    and g: "g' = 7"
    unfolding example_bootstrap by simp_all
  have c: "shared_permutation_subsets perm
               [[0, 1, 1, 1, 1, 1], [0, 0, 0, 1, 1, 1], [0, 0, 0, 0, 0, 1]] [2, 1, 3]
            = [[], [1, 0], [1, 0], [1, 0, 2], [1, 0, 2], [1, 0, 2, 5, 3, 4]]"
    using b unfolding s gmf3_state(3) by simp
  show ?thesis
    by (rule exI[of _ perm]) (simp only: c example_bootstrap simp_thms)
qed

section \<open>The control-variate weights\<close>





end
